theory Spec2Isabelle
  imports Main
begin

section \<open>Data model\<close>

text \<open>
  The module \<^verbatim>\<open>ducksearch/search/select.py\<close> drives an external retrieval engine
  (DuckDB) through parquet files written to the working directory. The model keeps
  the three things the module touches: the files it writes and removes, the database
  it asks, and the values it returns or raises.
\<close>

datatype error =
    KeyError string
  | IndexError
  | ValueError
  | IOException string
  | EngineError string

text \<open>
  A value of a cell of a fetched row. The module only ever inspects the cell under the
  key \<^verbatim>\<open>_query\<close>, which it compares with query strings; every other cell is
  carried along untouched.
\<close>

datatype val = Str string | Num int | Null

text \<open>A fetched row is a Python dict; its keys are kept in insertion order.\<close>

type_synonym row = "(string \<times> val) list"

text \<open>The argument \<^verbatim>\<open>queries: str | list[str]\<close>.\<close>

datatype queries_arg = Single string | Many "string list"

text \<open>
  The keyword arguments of \<^verbatim>\<open>search\<close> that it hands on unchanged. The arguments
  \<^verbatim>\<open>database\<close> and \<^verbatim>\<open>config\<close> only select the connection; they are
  represented by the database component of the world below.
\<close>

record config =
  schema :: string
  source_schema :: string
  source :: string
  batch_size :: int
  top_k :: int
  top_k_token :: int
  n_jobs :: int
  filters :: "string option"

text \<open>
  What the module does to its surroundings, in the order it does it. The log is a
  history variable: no function reads it.
\<close>

datatype event =
    Select_settings
  | Write_table string
  | Remove string
  | Execute string

record 'db world =
  files :: "string \<Rightarrow> string list option"
  db :: 'db
  log :: "event list"

text \<open>
  The SQL behind each decorated function is not part of the module. It is a parameter:
  each statement maps the arguments it is formatted with and the database to a result
  (or an exception) and the database it leaves. A parquet file enters a statement as
  the rows of its single column \<^verbatim>\<open>query\<close>.
\<close>

record ('db, 'st) engine =
  select_settings_sql :: "string \<Rightarrow> 'db \<Rightarrow> (error + 'st list) \<times> 'db"
  insert_queries_sql :: "string \<Rightarrow> string list \<Rightarrow> 'db \<Rightarrow> (error + unit) \<times> 'db"
  create_queries_index_sql :: "string \<Rightarrow> 'st \<Rightarrow> 'db \<Rightarrow> (error + unit) \<times> 'db"
  search_sql ::
    "string \<Rightarrow> string \<Rightarrow> string \<Rightarrow> int \<Rightarrow> int \<Rightarrow> string list \<Rightarrow> 'db \<Rightarrow> (error + row list) \<times> 'db"
  search_filters_sql ::
    "string \<Rightarrow> string \<Rightarrow> string \<Rightarrow> int \<Rightarrow> int \<Rightarrow> string \<Rightarrow> string list \<Rightarrow> 'db
      \<Rightarrow> (error + row list) \<times> 'db"

section \<open>Files\<close>

text \<open>Python's \<^verbatim>\<open>str\<close> of a non-negative integer, as the f-string formats the batch index.\<close>

definition digit :: "nat \<Rightarrow> char" where
  "digit d = char_of (48 + d)"

fun str_nat :: "nat \<Rightarrow> string" where
  "str_nat n = (if n < 10 then [digit n] else str_nat (n div 10) @ [digit (n mod 10)])"

declare str_nat.simps [simp del]

definition queries_parquet :: string where
  "queries_parquet = ''_queries.parquet''"

definition batch_parquet :: "nat \<Rightarrow> string" where
  "batch_parquet index = ''_queries_'' @ str_nat index @ ''.parquet''"

text \<open>\<^verbatim>\<open>pq.write_table(pa.Table.from_pydict({"query": queries}), path)\<close>\<close>

definition write_table :: "string list \<Rightarrow> string \<Rightarrow> 'db world \<Rightarrow> 'db world" where
  "write_table queries path w =
     w\<lparr>files := (files w)(path \<mapsto> queries), log := log w @ [Write_table path]\<rparr>"

text \<open>\<^verbatim>\<open>if os.path.exists(path): os.remove(path)\<close>\<close>

definition remove_if_exists :: "string \<Rightarrow> 'db world \<Rightarrow> 'db world" where
  "remove_if_exists path w =
     (if files w path \<noteq> None
      then w\<lparr>files := (files w)(path := None), log := log w @ [Remove path]\<rparr>
      else w)"

section \<open>The decorated engine calls\<close>

text \<open>
  Modelled from the spec: the decorator \<^verbatim>\<open>execute_with_duckdb\<close> (package
  \<^verbatim>\<open>ducksearch.decorators\<close>, not among the sources). It opens a connection, runs
  the SQL file \<^verbatim>\<open>relative_path\<close> and returns what it fetched; on a connection
  opened with \<^verbatim>\<open>read_only=True\<close> the database stays as it was.
\<close>

definition execute_with_duckdb ::
  "string \<Rightarrow> bool \<Rightarrow> ('db \<Rightarrow> (error + 'a) \<times> 'db) \<Rightarrow> 'db world \<Rightarrow> (error + 'a) \<times> 'db world" where
  "execute_with_duckdb relative_path read_only sql w =
     (fst (sql (db w)),
      w\<lparr>db := (if read_only then db w else snd (sql (db w))),
        log := log w @ [Execute relative_path]\<rparr>)"

text \<open>A statement that scans \<^verbatim>\<open>parquet_file\<close> fails when the file is not there.\<close>

definition with_parquet ::
  "string \<Rightarrow> (string list \<Rightarrow> 'db world \<Rightarrow> (error + 'a) \<times> 'db world) \<Rightarrow> 'db world
    \<Rightarrow> (error + 'a) \<times> 'db world" where
  "with_parquet parquet_file f w =
     (case files w parquet_file of
        None \<Rightarrow> (Inl (IOException parquet_file), w)
      | Some rows \<Rightarrow> f rows w)"

definition create_queries_index ::
  "('db, 'st) engine \<Rightarrow> string \<Rightarrow> 'st \<Rightarrow> 'db world \<Rightarrow> (error + unit) \<times> 'db world" where
  "create_queries_index eng sch settings =
     execute_with_duckdb ''search/create/queries_index.sql'' False
       (create_queries_index_sql eng sch settings)"

definition insert_queries ::
  "('db, 'st) engine \<Rightarrow> string \<Rightarrow> string \<Rightarrow> 'db world \<Rightarrow> (error + unit) \<times> 'db world" where
  "insert_queries eng sch parquet_file =
     with_parquet parquet_file (\<lambda>rows.
       execute_with_duckdb ''search/insert/queries.sql'' False (insert_queries_sql eng sch rows))"

definition search_query ::
  "('db, 'st) engine \<Rightarrow> config \<Rightarrow> string \<Rightarrow> 'db world \<Rightarrow> (error + row list) \<times> 'db world" where
  "search_query eng c parquet_file =
     with_parquet parquet_file (\<lambda>rows.
       execute_with_duckdb ''search/select/search.sql'' True
         (search_sql eng (schema c) (source_schema c) (source c) (top_k c) (top_k_token c) rows))"

definition search_query_filters ::
  "('db, 'st) engine \<Rightarrow> config \<Rightarrow> string \<Rightarrow> string \<Rightarrow> 'db world
    \<Rightarrow> (error + row list) \<times> 'db world" where
  "search_query_filters eng c flt parquet_file =
     with_parquet parquet_file (\<lambda>rows.
       execute_with_duckdb ''search/select/search_filters.sql'' True
         (search_filters_sql eng (schema c) (source_schema c) (source c) (top_k c)
            (top_k_token c) flt rows))"

text \<open>
  \<^verbatim>\<open>_select_settings\<close> is imported from \<^verbatim>\<open>.create\<close>; nothing is known about
  its connection, so it may leave the database changed.
\<close>

definition select_settings ::
  "('db, 'st) engine \<Rightarrow> string \<Rightarrow> 'db world \<Rightarrow> (error + 'st list) \<times> 'db world" where
  "select_settings eng sch w =
     (fst (select_settings_sql eng sch (db w)),
      w\<lparr>db := snd (select_settings_sql eng sch (db w)), log := log w @ [Select_settings]\<rparr>)"

section \<open>One batch: \<^verbatim>\<open>_search\<close>\<close>

text \<open>\<^verbatim>\<open>search_function = _search_query_filters if filters is not None else _search_query\<close>\<close>

definition search_function ::
  "('db, 'st) engine \<Rightarrow> config \<Rightarrow> string \<Rightarrow> 'db world \<Rightarrow> (error + row list) \<times> 'db world" where
  "search_function eng c =
     (case filters c of
        Some flt \<Rightarrow> search_query_filters eng c flt
      | None \<Rightarrow> search_query eng c)"

text \<open>\<^verbatim>\<open>match.pop("_query")\<close>: the value under the key, and the dict without the key.\<close>

definition pop :: "string \<Rightarrow> row \<Rightarrow> error + (val \<times> row)" where
  "pop key d =
     (case map_of d key of
        None \<Rightarrow> Inl (KeyError key)
      | Some v \<Rightarrow> Inr (v, filter (\<lambda>kv. fst kv \<noteq> key) d))"

text \<open>
  The loop over \<^verbatim>\<open>matchs\<close>. A \<^verbatim>\<open>defaultdict(list)\<close> is a function that is
  \<open>[]\<close> wherever nothing was appended.
\<close>

fun group_matchs :: "row list \<Rightarrow> (val \<Rightarrow> row list) \<Rightarrow> error + (val \<Rightarrow> row list)" where
  "group_matchs [] candidates = Inr candidates"
| "group_matchs (match # matchs) candidates =
     (case pop ''_query'' match of
        Inl e \<Rightarrow> Inl e
      | Inr (query, match') \<Rightarrow>
          group_matchs matchs (candidates(query := candidates query @ [match'])))"

text \<open>Lines 280 to 284: group, then one slot per query of the batch.\<close>

definition collect :: "row list \<Rightarrow> string list \<Rightarrow> error + row list list" where
  "collect matchs queries =
     (case group_matchs matchs (\<lambda>_. []) of
        Inl e \<Rightarrow> Inl e
      | Inr candidates \<Rightarrow> Inr (map (\<lambda>query. candidates (Str query)) queries))"

definition search_batch ::
  "('db, 'st) engine \<Rightarrow> config \<Rightarrow> string list \<Rightarrow> nat \<Rightarrow> 'db world
    \<Rightarrow> (error + row list list) \<times> 'db world" where
  "search_batch eng c queries index w =
     (let w1 = write_table queries (batch_parquet index) w in
      case search_function eng c (batch_parquet index) w1 of
        (Inl e, w2) \<Rightarrow> (Inl e, w2)
      | (Inr matchs, w2) \<Rightarrow>
          (let w3 = remove_if_exists (batch_parquet index) w2 in
           case collect matchs queries of
             Inl e \<Rightarrow> (Inl e, w3)
           | Inr slots \<Rightarrow> (Inr slots, w3)))"

section \<open>Batches and their parallel dispatch\<close>

text \<open>
  Modelled from the spec: \<^verbatim>\<open>batchify\<close> (module \<^verbatim>\<open>ducksearch.utils\<close>, not among
  the sources). The spec's \<^verbatim>\<open>partition(QuerySet, batch_size)\<close> cuts the sequence into
  consecutive batches of \<^verbatim>\<open>batch_size\<close> elements, the last one possibly smaller. The
  spec says nothing about a batch size below one; here it yields no batch.
\<close>

function batchify :: "'a list \<Rightarrow> nat \<Rightarrow> 'a list list" where
  "batchify X bsize =
     (if bsize = 0 \<or> X = [] then [] else take bsize X # batchify (drop bsize X) bsize)"
  by pat_completeness auto
termination
  by (relation "measure (\<lambda>(X, bsize). length X)") auto

declare batchify.simps [simp del]

text \<open>
  joblib is an external library. Its documented reading of \<^verbatim>\<open>n_jobs\<close>: zero is
  refused, a negative number counts back from the number of processors
  (\<^verbatim>\<open>-1\<close> is all of them), and there is always at least one worker.
\<close>

definition effective_n_jobs :: "nat \<Rightarrow> int \<Rightarrow> error + nat" where
  "effective_n_jobs cpu_count jobs =
     (if jobs = 0 then Inl ValueError
      else if jobs < 0 then Inr (nat (max (int cpu_count + 1 + jobs) 1))
      else Inr (nat jobs))"

text \<open>
  A call of \<^verbatim>\<open>_search\<close> running on a thread passes three points at which other
  threads can see what it did: the batch file is written, the engine has answered,
  the file is removed and the slots are built.
\<close>

datatype task = Todo | Written | Searched "row list" | Done "row list list"

definition task_step ::
  "('db, 'st) engine \<Rightarrow> config \<Rightarrow> string list \<Rightarrow> nat \<Rightarrow> task \<Rightarrow> 'db world
    \<Rightarrow> (error + task) \<times> 'db world" where
  "task_step eng c queries index t w =
     (case t of
        Todo \<Rightarrow> (Inr Written, write_table queries (batch_parquet index) w)
      | Written \<Rightarrow>
          (case search_function eng c (batch_parquet index) w of
             (Inl e, w') \<Rightarrow> (Inl e, w')
           | (Inr matchs, w') \<Rightarrow> (Inr (Searched matchs), w'))
      | Searched matchs \<Rightarrow>
          (let w' = remove_if_exists (batch_parquet index) w in
           case collect matchs queries of
             Inl e \<Rightarrow> (Inl e, w')
           | Inr slots \<Rightarrow> (Inr (Done slots), w'))
      | Done slots \<Rightarrow> (Inr (Done slots), w))"

text \<open>A task occupies a worker from its start until it returns.\<close>

fun busy :: "task \<Rightarrow> bool" where
  "busy Todo = False"
| "busy Written = True"
| "busy (Searched matchs) = True"
| "busy (Done slots) = False"

definition in_flight :: "task list \<Rightarrow> nat" where
  "in_flight ts = length (filter busy ts)"

text \<open>
  The pool: the state of every task, the exception raised so far, the world. A thread
  scheduler is a list of task indices; each entry lets that task pass its next point.
  Nothing moves once an exception was raised, and a task does not start while all
  workers are busy.
\<close>

type_synonym 'db pool = "task list \<times> error option \<times> 'db world"

definition pick ::
  "('db, 'st) engine \<Rightarrow> config \<Rightarrow> nat \<Rightarrow> string list list \<Rightarrow> nat \<Rightarrow> 'db pool \<Rightarrow> 'db pool" where
  "pick eng c workers batches i p =
     (case p of (ts, raised, w) \<Rightarrow>
        if raised \<noteq> None \<or> length ts \<le> i then p
        else if ts ! i = Todo \<and> workers \<le> in_flight ts then p
        else (case task_step eng c (batches ! i) i (ts ! i) w of
                (Inl e, w') \<Rightarrow> (ts, Some e, w')
              | (Inr t, w') \<Rightarrow> (ts[i := t], None, w')))"

fun run ::
  "('db, 'st) engine \<Rightarrow> config \<Rightarrow> nat \<Rightarrow> string list list \<Rightarrow> nat list \<Rightarrow> 'db pool \<Rightarrow> 'db pool" where
  "run eng c workers batches [] p = p"
| "run eng c workers batches (i # sched) p =
     run eng c workers batches sched (pick eng c workers batches i p)"

text \<open>Every task in turn, from start to end.\<close>

definition drain :: "nat \<Rightarrow> nat list" where
  "drain n = concat (map (\<lambda>i. [i, i, i]) [0..<n])"

definition returned :: "task \<Rightarrow> row list list" where
  "returned t = (case t of Done slots \<Rightarrow> slots | _ \<Rightarrow> [])"

text \<open>
  \<^verbatim>\<open>Parallel(n_jobs=jobs, backend="threading")(delayed(_search)(..., batch, ..., index, ...)
  for index, batch in enumerate(batches))\<close>: the threads interleave as \<open>sched\<close> says,
  whatever is then unfinished runs to its end, and the results come back in the order of
  the tasks.
\<close>

definition Parallel ::
  "('db, 'st) engine \<Rightarrow> config \<Rightarrow> nat \<Rightarrow> int \<Rightarrow> nat list \<Rightarrow> string list list \<Rightarrow> 'db world
    \<Rightarrow> (error + row list list list) \<times> 'db world" where
  "Parallel eng c cpu_count jobs sched batches w =
     (case effective_n_jobs cpu_count jobs of
        Inl e \<Rightarrow> (Inl e, w)
      | Inr workers \<Rightarrow>
          (case run eng c workers batches
                  (sched @ drain (length batches) @ drain (length batches))
                  (replicate (length batches) Todo, None, w) of
             (ts, Some e, w') \<Rightarrow> (Inl e, w')
           | (ts, None, w') \<Rightarrow> (Inr (map returned ts), w')))"

section \<open>The entry point: \<^verbatim>\<open>search\<close>\<close>

definition normalize_queries :: "queries_arg \<Rightarrow> string list" where
  "normalize_queries queries = (case queries of Single q \<Rightarrow> [q] | Many qs \<Rightarrow> qs)"

text \<open>\<^verbatim>\<open>n_jobs=1 if len(queries) <= batch_size else n_jobs\<close>\<close>

definition dispatch_n_jobs :: "config \<Rightarrow> string list \<Rightarrow> int" where
  "dispatch_n_jobs c queries = (if int (length queries) \<le> batch_size c then 1 else n_jobs c)"

definition search ::
  "('db, 'st) engine \<Rightarrow> nat \<Rightarrow> nat list \<Rightarrow> config \<Rightarrow> queries_arg \<Rightarrow> 'db world
    \<Rightarrow> (error + row list list) \<times> 'db world" where
  "search eng cpu_count sched c queries_arg w =
     (let queries = normalize_queries queries_arg in
      case select_settings eng (schema c) w of
        (Inl e, w0) \<Rightarrow> (Inl e, w0)
      | (Inr [], w0) \<Rightarrow> (Inl IndexError, w0)
      | (Inr (settings # _), w0) \<Rightarrow>
          (let w1 = write_table queries queries_parquet w0 in
           case insert_queries eng (schema c) queries_parquet w1 of
             (Inl e, w2) \<Rightarrow> (Inl e, w2)
           | (Inr _, w2) \<Rightarrow>
               (case create_queries_index eng (schema c) settings w2 of
                  (Inl e, w3) \<Rightarrow> (Inl e, w3)
                | (Inr _, w3) \<Rightarrow>
                    (case Parallel eng c cpu_count (dispatch_n_jobs c queries) sched
                            (batchify queries (nat (batch_size c))) w3 of
                       (Inl e, w4) \<Rightarrow> (Inl e, w4)
                     | (Inr matchs, w4) \<Rightarrow> (Inr (concat matchs), w4)))))"

text \<open>The two wrappers only fix the schema and the source table.\<close>

definition documents ::
  "('db, 'st) engine \<Rightarrow> nat \<Rightarrow> nat list \<Rightarrow> config \<Rightarrow> queries_arg \<Rightarrow> 'db world
    \<Rightarrow> (error + row list list) \<times> 'db world" where
  "documents eng cpu_count sched c =
     search eng cpu_count sched
       (c\<lparr>schema := ''bm25_documents'', source_schema := ''bm25_tables'', source := ''documents''\<rparr>)"

definition queries ::
  "('db, 'st) engine \<Rightarrow> nat \<Rightarrow> nat list \<Rightarrow> config \<Rightarrow> queries_arg \<Rightarrow> 'db world
    \<Rightarrow> (error + row list list) \<times> 'db world" where
  "queries eng cpu_count sched c =
     search eng cpu_count sched
       (c\<lparr>schema := ''bm25_queries'', source_schema := ''bm25_tables'', source := ''queries''\<rparr>)"

section \<open>Vocabulary of the statements\<close>

text \<open>What the engine answers for the rows of a parquet file on database \<open>d\<close>.\<close>

definition retrieve :: "('db, 'st) engine \<Rightarrow> config \<Rightarrow> 'db \<Rightarrow> string list \<Rightarrow> error + row list" where
  "retrieve eng c d rows =
     (case filters c of
        Some flt \<Rightarrow>
          fst (search_filters_sql eng (schema c) (source_schema c) (source c) (top_k c)
                 (top_k_token c) flt rows d)
      | None \<Rightarrow>
          fst (search_sql eng (schema c) (source_schema c) (source c) (top_k c)
                 (top_k_token c) rows d))"

text \<open>The SQL file \<^verbatim>\<open>search_function\<close> stands for.\<close>

definition search_path :: "config \<Rightarrow> string" where
  "search_path c =
     (case filters c of
        Some flt \<Rightarrow> ''search/select/search_filters.sql''
      | None \<Rightarrow> ''search/select/search.sql'')"

text \<open>
  The words of the spec for a result slot: the engine's rows tagged with the query text,
  in the engine's order, each without its tag.
\<close>

definition tagged :: "string \<Rightarrow> row \<Rightarrow> bool" where
  "tagged q m = (map_of m ''_query'' = Some (Str q))"

definition untag :: "row \<Rightarrow> row" where
  "untag m = filter (\<lambda>kv. fst kv \<noteq> ''_query'') m"

definition tagged_subsequence :: "row list \<Rightarrow> string \<Rightarrow> row list" where
  "tagged_subsequence matchs q = map untag (filter (tagged q) matchs)"

text \<open>What a batch comes to when nothing else runs: the engine's answer, grouped.\<close>

definition batch_outcome ::
  "('db, 'st) engine \<Rightarrow> config \<Rightarrow> 'db \<Rightarrow> string list \<Rightarrow> error + row list list" where
  "batch_outcome eng c d rows =
     (case retrieve eng c d rows of Inl e \<Rightarrow> Inl e | Inr matchs \<Rightarrow> collect matchs rows)"

text \<open>The events of the retrieval phase.\<close>

definition retrieval_event :: "config \<Rightarrow> event \<Rightarrow> bool" where
  "retrieval_event c ev =
     (case ev of
        Write_table path \<Rightarrow> path \<noteq> queries_parquet
      | Remove path \<Rightarrow> path \<noteq> queries_parquet
      | Execute path \<Rightarrow> path = search_path c
      | Select_settings \<Rightarrow> False)"

text \<open>
  What holds of a pool at every moment of a run that started on world \<open>w0\<close> with
  database \<open>d\<close>: each task is where its own three steps brought it, whatever the
  other tasks did in between.
\<close>

definition task_ok ::
  "('db, 'st) engine \<Rightarrow> config \<Rightarrow> 'db \<Rightarrow> string list \<Rightarrow> nat \<Rightarrow> task \<Rightarrow> 'db world \<Rightarrow> bool" where
  "task_ok eng c d rows i t w =
     (case t of
        Todo \<Rightarrow> True
      | Written \<Rightarrow> files w (batch_parquet i) = Some rows
      | Searched matchs \<Rightarrow> retrieve eng c d rows = Inr matchs
      | Done slots \<Rightarrow> batch_outcome eng c d rows = Inr slots \<and> files w (batch_parquet i) = None)"

definition pool_inv ::
  "('db, 'st) engine \<Rightarrow> config \<Rightarrow> nat \<Rightarrow> string list list \<Rightarrow> 'db world \<Rightarrow> 'db pool \<Rightarrow> bool" where
  "pool_inv eng c workers batches w0 p =
     (case p of (ts, raised, w) \<Rightarrow>
        length ts = length batches \<and>
        db w = db w0 \<and>
        (\<forall>i < length batches. task_ok eng c (db w0) (batches ! i) i (ts ! i) w) \<and>
        (\<forall>e. raised = Some e \<longrightarrow>
           (\<exists>i < length batches. batch_outcome eng c (db w0) (batches ! i) = Inl e)) \<and>
        in_flight ts \<le> workers \<and>
        (\<forall>path. (\<forall>i. path \<noteq> batch_parquet i) \<longrightarrow> files w path = files w0 path) \<and>
        (\<exists>evs. log w = log w0 @ evs \<and> (\<forall>ev \<in> set evs. retrieval_event c ev)))"

text \<open>
  Modelled from the spec: the retrieval statements \<^verbatim>\<open>search/select/search.sql\<close> and
  \<^verbatim>\<open>search/select/search_filters.sql\<close> (not among the sources). The spec's contract of
  \<^verbatim>\<open>retrieve\<close>: the rows it returns for a query text are that text's candidate list,
  the same whatever else is in the artifact; there are at most \<^verbatim>\<open>top_k\<close> of them; and
  every row has at least the fields \<^verbatim>\<open>id\<close> and \<^verbatim>\<open>score\<close>.
\<close>

definition retrieve_per_query :: "('db, 'st) engine \<Rightarrow> config \<Rightarrow> 'db \<Rightarrow> bool" where
  "retrieve_per_query eng c d =
     (\<forall>rows rows' matchs matchs' q.
        retrieve eng c d rows = Inr matchs \<longrightarrow> retrieve eng c d rows' = Inr matchs' \<longrightarrow>
        q \<in> set rows \<longrightarrow> q \<in> set rows' \<longrightarrow>
        filter (tagged q) matchs = filter (tagged q) matchs')"

definition retrieve_top_k :: "('db, 'st) engine \<Rightarrow> config \<Rightarrow> 'db \<Rightarrow> bool" where
  "retrieve_top_k eng c d =
     (\<forall>rows matchs q.
        retrieve eng c d rows = Inr matchs \<longrightarrow> int (length (filter (tagged q) matchs)) \<le> top_k c)"

definition retrieve_fields :: "('db, 'st) engine \<Rightarrow> config \<Rightarrow> 'db \<Rightarrow> bool" where
  "retrieve_fields eng c d =
     (\<forall>rows matchs.
        retrieve eng c d rows = Inr matchs \<longrightarrow>
        (\<forall>m \<in> set matchs. map_of m ''id'' \<noteq> None \<and> map_of m ''score'' \<noteq> None))"

text \<open>How many of its three points a task has passed.\<close>

fun passed :: "task \<Rightarrow> nat" where
  "passed Todo = 0"
| "passed Written = 1"
| "passed (Searched matchs) = 2"
| "passed (Done slots) = 3"

text \<open>The part of \<^verbatim>\<open>search\<close> before the dispatch: settings, staging, loading, indexing.\<close>

definition index_phase ::
  "('db, 'st) engine \<Rightarrow> config \<Rightarrow> string list \<Rightarrow> 'db world \<Rightarrow> (error + unit) \<times> 'db world" where
  "index_phase eng c qs w =
     (case select_settings eng (schema c) w of
        (Inl e, w0) \<Rightarrow> (Inl e, w0)
      | (Inr [], w0) \<Rightarrow> (Inl IndexError, w0)
      | (Inr (settings # _), w0) \<Rightarrow>
          (let w1 = write_table qs queries_parquet w0 in
           case insert_queries eng (schema c) queries_parquet w1 of
             (Inl e, w2) \<Rightarrow> (Inl e, w2)
           | (Inr _, w2) \<Rightarrow> create_queries_index eng (schema c) settings w2))"

text \<open>The batches of a call.\<close>

definition batches_of :: "config \<Rightarrow> string list \<Rightarrow> string list list" where
  "batches_of c qs = batchify qs (nat (batch_size c))"

section \<open>A small engine to run the definitions on\<close>

definition demo_table :: "row list" where
  "demo_table =
     [[(''id'', Str ''d1''), (''score'', Num 3), (''_query'', Str ''a'')],
      [(''id'', Str ''d2''), (''score'', Num 1), (''_query'', Str ''a'')],
      [(''id'', Str ''d1''), (''score'', Num 2), (''_query'', Str ''b'')]]"

definition demo_engine :: "(string list, nat) engine" where
  "demo_engine =
     \<lparr>select_settings_sql = (\<lambda>sch d. (Inr [0], d)),
      insert_queries_sql = (\<lambda>sch rows d. (Inr (), d @ rows)),
      create_queries_index_sql = (\<lambda>sch st d. (Inr (), d)),
      search_sql = (\<lambda>sch ssch src k kt rows d.
        (Inr (filter (\<lambda>m. \<exists>q \<in> set rows. tagged q m) demo_table), d)),
      search_filters_sql = (\<lambda>sch ssch src k kt flt rows d. (Inl (EngineError flt), d))\<rparr>"

definition demo_config :: config where
  "demo_config =
     \<lparr>schema = ''bm25_documents'', source_schema = ''bm25_tables'', source = ''documents'',
      batch_size = 2, top_k = 2, top_k_token = 10000, n_jobs = - 1, filters = None\<rparr>"

definition demo_world :: "string list world" where
  "demo_world = \<lparr>files = (\<lambda>path. None), db = [], log = []\<rparr>"

section \<open>File names do not collide\<close>

lemma digit_inj: "d < 10 \<Longrightarrow> e < 10 \<Longrightarrow> digit d = digit e \<Longrightarrow> d = e"
proof -
  assume a: "d < 10" "e < 10" "digit d = digit e"
  then have "(of_char (digit d) :: nat) = of_char (digit e)" by simp
  with a show ?thesis by (simp add: digit_def)
qed

lemma str_nat_nonempty: "str_nat n \<noteq> []" "[] \<noteq> str_nat n"
  by (subst str_nat.simps, simp)+

lemma str_nat_inj: "str_nat n = str_nat m \<Longrightarrow> n = m"
proof (induction n arbitrary: m rule: str_nat.induct)
  case (1 n)
  show ?case
  proof (cases "n < 10")
    case True
    then have n: "str_nat n = [digit n]" by (subst str_nat.simps) simp
    show ?thesis
    proof (cases "m < 10")
      case True
      then have "str_nat m = [digit m]" by (subst str_nat.simps) simp
      with n "1.prems" \<open>n < 10\<close> True show ?thesis by (auto dest: digit_inj)
    next
      case False
      then have "str_nat m = str_nat (m div 10) @ [digit (m mod 10)]" by (subst str_nat.simps) simp
      with n "1.prems" show ?thesis by (simp add: str_nat_nonempty)
    qed
  next
    case False
    then have n: "str_nat n = str_nat (n div 10) @ [digit (n mod 10)]" by (subst str_nat.simps) simp
    show ?thesis
    proof (cases "m < 10")
      case True
      then have "str_nat m = [digit m]" by (subst str_nat.simps) simp
      with n "1.prems" show ?thesis by (simp add: str_nat_nonempty)
    next
      case m: False
      then have "str_nat m = str_nat (m div 10) @ [digit (m mod 10)]" by (subst str_nat.simps) simp
      with n "1.prems" have e: "str_nat (n div 10) = str_nat (m div 10)" "digit (n mod 10) = digit (m mod 10)"
        by simp_all
      from "1.IH" [OF False e(1)] have "n div 10 = m div 10" .
      moreover from e(2) have "n mod 10 = m mod 10" by (auto dest!: digit_inj [rotated 2])
      ultimately show ?thesis by (metis div_mult_mod_eq)
    qed
  qed
qed

lemma batch_parquet_inj [simp]: "batch_parquet i = batch_parquet j \<longleftrightarrow> i = j"
  by (auto simp: batch_parquet_def dest: str_nat_inj)

lemma batch_parquet_neq_queries [simp]:
  "batch_parquet i \<noteq> queries_parquet" "queries_parquet \<noteq> batch_parquet i"
  by (auto simp: batch_parquet_def queries_parquet_def)

section \<open>Batches\<close>

lemma batchify_Nil [simp]: "batchify [] n = []"
  by (subst batchify.simps) simp

lemma batchify_Cons: "0 < n \<Longrightarrow> X \<noteq> [] \<Longrightarrow> batchify X n = take n X # batchify (drop n X) n"
  by (subst batchify.simps) simp

lemma concat_batchify: "0 < n \<Longrightarrow> concat (batchify X n) = X"
proof (induction X n rule: batchify.induct)
  case (1 X n)
  show ?case
  proof (cases "X = []")
    case True then show ?thesis by simp
  next
    case False
    with 1 show ?thesis by (simp add: batchify_Cons)
  qed
qed

lemma batchify_slot:
  "0 < n \<Longrightarrow> i < length X \<Longrightarrow>
   i div n < length (batchify X n) \<and>
   concat (map (\<lambda>b. map (g b) b) (batchify X n)) ! i = g (batchify X n ! (i div n)) (X ! i)"
proof (induction X n arbitrary: i rule: batchify.induct)
  case (1 X n)
  from "1.prems" have ne: "X \<noteq> []" by auto
  have unf: "batchify X n = take n X # batchify (drop n X) n"
    using "1.prems" ne by (simp add: batchify_Cons)
  show ?case
  proof (cases "i < n")
    case True
    then have "i div n = 0" by simp
    with True "1.prems" unf show ?thesis by (simp add: nth_append)
  next
    case False
    then have ge: "n \<le> i" by simp
    with "1.prems" have lt: "i - n < length (drop n X)" by simp
    have d: "i div n = Suc ((i - n) div n)"
      using ge "1.prems"(1) by (simp add: le_div_geq)
    from "1.IH" [OF _ "1.prems"(1) lt] "1.prems"(1) ne
    have IH: "(i - n) div n < length (batchify (drop n X) n)"
      "concat (map (\<lambda>b. map (g b) b) (batchify (drop n X) n)) ! (i - n)
        = g (batchify (drop n X) n ! ((i - n) div n)) (drop n X ! (i - n))" by auto
    have len: "length (take n X) = n" using ge "1.prems" by simp
    show ?thesis using IH ge "1.prems" len
      by (simp add: unf d nth_append)
  qed
qed

lemma length_concat_batches:
  "0 < n \<Longrightarrow> length (concat (map (\<lambda>b. map (g b) b) (batchify X n))) = length X"
proof -
  assume n: "0 < n"
  have "length (concat (map (\<lambda>b. map (g b) b) bs)) = length (concat bs)" for bs
    by (induction bs) auto
  then show ?thesis using concat_batchify [OF n, of X] by simp
qed

section \<open>Grouping the matches of a batch\<close>

lemma pop_query:
  "pop ''_query'' m = (case map_of m ''_query'' of None \<Rightarrow> Inl (KeyError ''_query'') | Some v \<Rightarrow> Inr (v, untag m))"
  by (simp add: pop_def untag_def split: option.splits)

lemma group_matchs_Inr:
  "\<forall>m \<in> set matchs. map_of m ''_query'' \<noteq> None \<Longrightarrow>
   \<exists>cands. group_matchs matchs candidates = Inr cands \<and>
     (\<forall>v. cands v = candidates v @ map untag (filter (\<lambda>m. map_of m ''_query'' = Some v) matchs))"
proof (induction matchs arbitrary: candidates)
  case Nil
  then show ?case by simp
next
  case (Cons m matchs)
  from Cons.prems obtain v where v: "map_of m ''_query'' = Some v" by auto
  from Cons.prems have "\<forall>m \<in> set matchs. map_of m ''_query'' \<noteq> None" by simp
  from Cons.IH [OF this, of "candidates(v := candidates v @ [untag m])"]
  obtain cands where c: "group_matchs matchs (candidates(v := candidates v @ [untag m])) = Inr cands"
    "\<forall>u. cands u = (candidates(v := candidates v @ [untag m])) u
        @ map untag (filter (\<lambda>m. map_of m ''_query'' = Some u) matchs)" by blast
  show ?case using v c by (auto simp: pop_query)
qed

lemma group_matchs_Inl:
  "\<exists>m \<in> set matchs. map_of m ''_query'' = None \<Longrightarrow>
   group_matchs matchs candidates = Inl (KeyError ''_query'')"
proof (induction matchs arbitrary: candidates)
  case Nil
  then show ?case by simp
next
  case (Cons m matchs)
  then show ?case by (cases "map_of m ''_query''") (auto simp: pop_query)
qed

lemma tagged_eq: "tagged q = (\<lambda>m. map_of m ''_query'' = Some (Str q))"
  by (rule ext) (simp add: tagged_def)

lemma collect_eq:
  "collect matchs qs =
     (if \<forall>m \<in> set matchs. map_of m ''_query'' \<noteq> None
      then Inr (map (tagged_subsequence matchs) qs)
      else Inl (KeyError ''_query''))"
proof (cases "\<forall>m \<in> set matchs. map_of m ''_query'' \<noteq> None")
  case True
  from group_matchs_Inr [OF True, of "\<lambda>_. []"] True show ?thesis
    by (auto simp: collect_def tagged_subsequence_def tagged_eq)
next
  case False
  then have "\<exists>m \<in> set matchs. map_of m ''_query'' = None" by simp
  from group_matchs_Inl [OF this] False show ?thesis by (simp add: collect_def)
qed

lemma retrieve_search_function:
  "files w path = Some rows \<Longrightarrow>
   search_function eng c path w =
     (retrieve eng c (db w) rows, w\<lparr>log := log w @ [Execute (search_path c)]\<rparr>)"
  by (cases "filters c")
     (simp_all add: search_function_def search_query_def search_query_filters_def
        with_parquet_def execute_with_duckdb_def retrieve_def search_path_def)

lemma missing_search_function:
  "files w path = None \<Longrightarrow> search_function eng c path w = (Inl (IOException path), w)"
  by (cases "filters c")
     (simp_all add: search_function_def search_query_def search_query_filters_def
        with_parquet_def)

lemma search_batch_eq:
  "search_batch eng c qs index w =
     (batch_outcome eng c (db w) qs,
      (case retrieve eng c (db w) qs of
         Inl e \<Rightarrow> w\<lparr>files := (files w)(batch_parquet index \<mapsto> qs),
                    log := log w @ [Write_table (batch_parquet index), Execute (search_path c)]\<rparr>
       | Inr matchs \<Rightarrow> w\<lparr>files := (files w)(batch_parquet index := None),
                    log := log w @ [Write_table (batch_parquet index), Execute (search_path c),
                                    Remove (batch_parquet index)]\<rparr>))"
  by (simp add: search_batch_def Let_def write_table_def retrieve_search_function
      remove_if_exists_def batch_outcome_def split: sum.splits)

section \<open>Every interleaving keeps each task on its own track\<close>

text \<open>The three steps of a task, taken one after the other, are \<^verbatim>\<open>_search\<close>.\<close>

lemma search_batch_steps:
  "search_batch eng c qs index w =
     (case task_step eng c qs index Todo w of
        (Inl e, w1) \<Rightarrow> (Inl e, w1)
      | (Inr t1, w1) \<Rightarrow>
          (case task_step eng c qs index t1 w1 of
             (Inl e, w2) \<Rightarrow> (Inl e, w2)
           | (Inr t2, w2) \<Rightarrow>
               (case task_step eng c qs index t2 w2 of
                  (Inl e, w3) \<Rightarrow> (Inl e, w3)
                | (Inr t3, w3) \<Rightarrow> (Inr (returned t3), w3))))"
  by (simp add: search_batch_def task_step_def returned_def Let_def
      split: prod.splits sum.splits)


lemma in_flight_update:
  "i < length ts \<Longrightarrow>
   in_flight (ts[i := t]) + (if busy (ts ! i) then 1 else 0)
     = in_flight ts + (if busy t then 1 else 0)"
  unfolding in_flight_def
proof (induction ts arbitrary: i)
  case Nil
  then show ?case by simp
next
  case (Cons a ts)
  show ?case
  proof (cases i)
    case 0
    then show ?thesis by simp
  next
    case (Suc j)
    with Cons.prems have "j < length ts" by simp
    from Cons.IH [OF this] Suc show ?thesis by simp
  qed
qed

lemma in_flight_replicate [simp]: "in_flight (replicate n Todo) = 0"
  by (simp add: in_flight_def)

lemma task_ok_files:
  "files w' (batch_parquet i) = files w (batch_parquet i) \<Longrightarrow>
   task_ok eng c d rows i t w' = task_ok eng c d rows i t w"
  by (simp add: task_ok_def split: task.splits)

lemma pool_inv_init:
  "pool_inv eng c workers batches w0 (replicate (length batches) Todo, None, w0)"
  by (simp add: pool_inv_def task_ok_def)

lemma pool_inv_pick:
  assumes inv: "pool_inv eng c workers batches w0 p"
  shows "pool_inv eng c workers batches w0 (pick eng c workers batches i p)"
proof -
  obtain ts raised w where p: "p = (ts, raised, w)" by (cases p)
  from inv p have len: "length ts = length batches" and dbw: "db w = db w0"
    and ok: "\<And>j. j < length batches \<Longrightarrow> task_ok eng c (db w0) (batches ! j) j (ts ! j) w"
    and fl: "in_flight ts \<le> workers"
    and other: "\<And>path. (\<forall>j. path \<noteq> batch_parquet j) \<Longrightarrow> files w path = files w0 path"
    and lg: "\<exists>evs. log w = log w0 @ evs \<and> (\<forall>ev \<in> set evs. retrieval_event c ev)"
    by (auto simp: pool_inv_def)
  show ?thesis
  proof (cases "raised \<noteq> None \<or> length ts \<le> i \<or> (ts ! i = Todo \<and> workers \<le> in_flight ts)")
    case True
    then have "pick eng c workers batches i p = p" by (auto simp: pick_def p)
    with inv show ?thesis by simp
  next
    case False
    then have r: "raised = None" and i: "i < length ts"
      and free: "ts ! i = Todo \<Longrightarrow> in_flight ts < workers" by auto
    from i len have ib: "i < length batches" by simp
    show ?thesis
    proof (cases "ts ! i")
      case Todo
      let ?w = "write_table (batches ! i) (batch_parquet i) w"
      have pk: "pick eng c workers batches i p = (ts[i := Written], None, ?w)"
        using Todo r i free by (simp add: pick_def p task_step_def)
      have "in_flight (ts[i := Written]) = Suc (in_flight ts)"
        using in_flight_update [OF i, of Written] Todo by simp
      with free [OF Todo] have fl': "in_flight (ts[i := Written]) \<le> workers" by simp
      have ok': "task_ok eng c (db w0) (batches ! j) j (ts[i := Written] ! j) ?w"
        if "j < length batches" for j
      proof (cases "j = i")
        case True
        with i show ?thesis by (simp add: task_ok_def write_table_def)
      next
        case False
        then have eq: "files ?w (batch_parquet j) = files w (batch_parquet j)"
          by (simp add: write_table_def)
        show ?thesis using ok [OF that] False by (simp add: task_ok_files [OF eq])
      qed
      from lg obtain evs where evs: "log w = log w0 @ evs" "\<forall>ev \<in> set evs. retrieval_event c ev"
        by blast
      have lg': "\<exists>evs'. log ?w = log w0 @ evs' \<and> (\<forall>ev \<in> set evs'. retrieval_event c ev)"
        by (rule exI [of _ "evs @ [Write_table (batch_parquet i)]"])
           (use evs in \<open>simp add: write_table_def retrieval_event_def\<close>)
      show ?thesis unfolding pk pool_inv_def
        using len dbw ok' fl' other lg' by (simp add: write_table_def)
    next
      case Written
      from ok [OF ib] Written have f: "files w (batch_parquet i) = Some (batches ! i)"
        by (simp add: task_ok_def)
      let ?w = "w\<lparr>log := log w @ [Execute (search_path c)]\<rparr>"
      have sf: "search_function eng c (batch_parquet i) w = (retrieve eng c (db w0) (batches ! i), ?w)"
        using retrieve_search_function [OF f, of eng c] dbw by simp
      have ok': "task_ok eng c (db w0) (batches ! j) j (ts ! j) ?w" if "j < length batches" for j
      proof -
        have eq: "files ?w (batch_parquet j) = files w (batch_parquet j)" by simp
        show ?thesis using ok [OF that] by (simp add: task_ok_files [OF eq])
      qed
      from lg obtain evs where evs: "log w = log w0 @ evs" "\<forall>ev \<in> set evs. retrieval_event c ev"
        by blast
      have lg': "\<exists>evs'. log ?w = log w0 @ evs' \<and> (\<forall>ev \<in> set evs'. retrieval_event c ev)"
        by (rule exI [of _ "evs @ [Execute (search_path c)]"])
           (use evs in \<open>simp add: retrieval_event_def\<close>)
      show ?thesis
      proof (cases "retrieve eng c (db w0) (batches ! i)")
        case (Inl e)
        then have pk: "pick eng c workers batches i p = (ts, Some e, ?w)"
          using Written r i sf by (simp add: pick_def p task_step_def)
        have "\<exists>j < length batches. batch_outcome eng c (db w0) (batches ! j) = Inl e"
          using ib Inl by (auto simp: batch_outcome_def)
        then show ?thesis unfolding pk pool_inv_def
          using len dbw ok' fl other lg' by simp
      next
        case (Inr matchs)
        then have pk: "pick eng c workers batches i p = (ts[i := Searched matchs], None, ?w)"
          using Written r i sf by (simp add: pick_def p task_step_def)
        have fl': "in_flight (ts[i := Searched matchs]) \<le> workers"
          using in_flight_update [OF i, of "Searched matchs"] Written fl by simp
        have ok'': "task_ok eng c (db w0) (batches ! j) j (ts[i := Searched matchs] ! j) ?w"
          if "j < length batches" for j
          using ok' [OF that] Inr i by (cases "j = i") (simp_all add: task_ok_def)
        show ?thesis unfolding pk pool_inv_def
          using len dbw ok'' fl' other lg' by simp
      qed
    next
      case (Searched matchs)
      from ok [OF ib] Searched have rt: "retrieve eng c (db w0) (batches ! i) = Inr matchs"
        by (simp add: task_ok_def)
      let ?w = "remove_if_exists (batch_parquet i) w"
      have fw: "files ?w = (files w)(batch_parquet i := None)"
        by (auto simp: remove_if_exists_def)
      have dbw': "db ?w = db w0" using dbw by (simp add: remove_if_exists_def)
      have other': "files ?w path = files w0 path" if "\<forall>j. path \<noteq> batch_parquet j" for path
        using other [OF that] that by (simp add: fw)
      from lg obtain evs where evs: "log w = log w0 @ evs" "\<forall>ev \<in> set evs. retrieval_event c ev"
        by blast
      have lg': "\<exists>evs'. log ?w = log w0 @ evs' \<and> (\<forall>ev \<in> set evs'. retrieval_event c ev)"
      proof (cases "files w (batch_parquet i) = None")
        case True
        then have "?w = w" by (simp add: remove_if_exists_def)
        with lg show ?thesis by simp
      next
        case False
        show ?thesis
          by (rule exI [of _ "evs @ [Remove (batch_parquet i)]"])
             (use evs False in \<open>simp add: remove_if_exists_def retrieval_event_def\<close>)
      qed
      have okj: "task_ok eng c (db w0) (batches ! j) j (ts ! j) ?w"
        if "j < length batches" "j \<noteq> i" for j
      proof -
        have eq: "files ?w (batch_parquet j) = files w (batch_parquet j)"
          using that by (simp add: fw)
        show ?thesis using ok [OF that(1)] by (simp add: task_ok_files [OF eq])
      qed
      show ?thesis
      proof (cases "collect matchs (batches ! i)")
        case (Inl e)
        then have pk: "pick eng c workers batches i p = (ts, Some e, ?w)"
          using Searched r i by (simp add: pick_def p task_step_def Let_def)
        have "\<exists>j < length batches. batch_outcome eng c (db w0) (batches ! j) = Inl e"
          using ib Inl rt by (auto simp: batch_outcome_def)
        moreover have "task_ok eng c (db w0) (batches ! j) j (ts ! j) ?w"
          if "j < length batches" for j
          using okj [OF that] Searched rt by (cases "j = i") (simp_all add: task_ok_def)
        ultimately show ?thesis unfolding pk pool_inv_def
          using len dbw' fl other' lg' by simp
      next
        case (Inr slots)
        then have pk: "pick eng c workers batches i p = (ts[i := Done slots], None, ?w)"
          using Searched r i by (simp add: pick_def p task_step_def Let_def)
        have fl': "in_flight (ts[i := Done slots]) \<le> workers"
          using in_flight_update [OF i, of "Done slots"] Searched fl by simp
        have "task_ok eng c (db w0) (batches ! j) j (ts[i := Done slots] ! j) ?w"
          if "j < length batches" for j
        proof (cases "j = i")
          case True
          with i Inr rt show ?thesis by (simp add: task_ok_def batch_outcome_def fw)
        next
          case False
          with okj [OF that False] show ?thesis by simp
        qed
        then show ?thesis unfolding pk pool_inv_def
          using len dbw' fl' other' lg' by simp
      qed
    next
      case (Done slots)
      then have "pick eng c workers batches i p = p"
        using r i list_update_id [of ts i] by (simp add: pick_def p task_step_def)
      with inv show ?thesis by simp
    qed
  qed
qed

lemma pool_inv_run:
  "pool_inv eng c workers batches w0 p \<Longrightarrow>
   pool_inv eng c workers batches w0 (run eng c workers batches sched p)"
  by (induction sched arbitrary: p) (simp_all add: pool_inv_pick)

section \<open>Every run comes to an end\<close>

lemma run_raised [simp]:
  "run eng c workers batches sched (ts, Some e, w) = (ts, Some e, w)"
  by (induction sched) (simp_all add: pick_def)

lemma run_append:
  "run eng c workers batches (s1 @ s2) p = run eng c workers batches s2 (run eng c workers batches s1 p)"
  by (induction s1 arbitrary: p) simp_all

lemma in_flight_zero: "in_flight ts = 0 \<longleftrightarrow> (\<forall>t \<in> set ts. \<not> busy t)"
  by (auto simp: in_flight_def filter_empty_conv)

lemma busy_passed: "busy t \<longleftrightarrow> passed t = 1 \<or> passed t = 2"
  by (cases t) simp_all

lemma Done_passed: "(\<exists>slots. t = Done slots) \<longleftrightarrow> passed t = 3"
  by (cases t) simp_all

lemma Todo_passed: "t = Todo \<longleftrightarrow> passed t = 0"
  by (cases t) simp_all

lemma pick_blocked:
  "ts ! i = Todo \<Longrightarrow> workers \<le> in_flight ts \<Longrightarrow>
   pick eng c workers batches i (ts, None, w) = (ts, None, w)"
  by (simp add: pick_def)

lemma pick_advance:
  assumes "i < length ts" and "ts ! i \<noteq> Todo \<or> in_flight ts < workers"
    and "pick eng c workers batches i (ts, None, w) = (ts', r, w')"
  shows "length ts' = length ts" and "\<And>j. j \<noteq> i \<Longrightarrow> ts' ! j = ts ! j"
    and "r = None \<Longrightarrow> passed (ts' ! i) = min 3 (Suc (passed (ts ! i)))"
proof -
  have "length ts' = length ts \<and> (\<forall>j. j \<noteq> i \<longrightarrow> ts' ! j = ts ! j) \<and>
    (r = None \<longrightarrow> passed (ts' ! i) = min 3 (Suc (passed (ts ! i))))"
  proof (cases "ts ! i")
    case Todo
    with assms show ?thesis by (auto simp: pick_def task_step_def)
  next
    case Written
    with assms show ?thesis
      by (auto simp: pick_def task_step_def split: prod.splits sum.splits)
  next
    case (Searched matchs)
    with assms show ?thesis
      by (auto simp: pick_def task_step_def Let_def split: sum.splits)
  next
    case (Done slots)
    with assms show ?thesis by (auto simp: pick_def task_step_def)
  qed
  then show "length ts' = length ts" and "\<And>j. j \<noteq> i \<Longrightarrow> ts' ! j = ts ! j"
    and "r = None \<Longrightarrow> passed (ts' ! i) = min 3 (Suc (passed (ts ! i)))" by auto
qed

lemma run_triple:
  assumes i: "i < length ts"
  shows "\<exists>ts' raised' w'.
     run eng c workers batches [i, i, i] (ts, None, w) = (ts', raised', w') \<and>
     (raised' \<noteq> None \<or>
      (length ts' = length ts \<and> \<not> busy (ts' ! i) \<and> (\<forall>j. j \<noteq> i \<longrightarrow> ts' ! j = ts ! j) \<and>
       (in_flight ts < workers \<longrightarrow> (\<exists>slots. ts' ! i = Done slots))))"
proof (cases "ts ! i = Todo \<and> workers \<le> in_flight ts")
  case True
  then have "run eng c workers batches [i, i, i] (ts, None, w) = (ts, None, w)"
    by (simp add: pick_blocked)
  with True show ?thesis by simp
next
  case False
  then have go: "ts ! i \<noteq> Todo \<or> in_flight ts < workers" by auto
  obtain ts1 r1 w1 where s1: "pick eng c workers batches i (ts, None, w) = (ts1, r1, w1)"
    by (cases "pick eng c workers batches i (ts, None, w)") auto
  note a1 = pick_advance [OF i go s1]
  show ?thesis
  proof (cases r1)
    case (Some e)
    with s1 show ?thesis by simp
  next
    case r1: None
    have i1: "i < length ts1" using i a1(1) by simp
    have g1: "ts1 ! i \<noteq> Todo \<or> in_flight ts1 < workers"
      using a1(3) [OF r1] by (auto simp: Todo_passed)
    obtain ts2 r2 w2 where s2: "pick eng c workers batches i (ts1, None, w1) = (ts2, r2, w2)"
      by (cases "pick eng c workers batches i (ts1, None, w1)") auto
    note a2 = pick_advance [OF i1 g1 s2]
    show ?thesis
    proof (cases r2)
      case (Some e)
      with s1 r1 s2 show ?thesis by simp
    next
      case r2: None
      have i2: "i < length ts2" using i1 a2(1) by simp
      have g2: "ts2 ! i \<noteq> Todo \<or> in_flight ts2 < workers"
        using a2(3) [OF r2] by (auto simp: Todo_passed)
      obtain ts3 r3 w3 where s3: "pick eng c workers batches i (ts2, None, w2) = (ts3, r3, w3)"
        by (cases "pick eng c workers batches i (ts2, None, w2)") auto
      note a3 = pick_advance [OF i2 g2 s3]
      have rn: "run eng c workers batches [i, i, i] (ts, None, w) = (ts3, r3, w3)"
        using s1 s2 s3 r1 r2 by simp
      show ?thesis
      proof (cases r3)
        case (Some e)
        with rn show ?thesis by simp
      next
        case None
        from a3(3) [OF None] a2(3) [OF r2] a1(3) [OF r1] have "passed (ts3 ! i) = 3" by simp
        then have "\<not> busy (ts3 ! i)" "\<exists>slots. ts3 ! i = Done slots"
          by (simp_all add: busy_passed Done_passed)
        moreover have "length ts3 = length ts" using a1(1) a2(1) a3(1) by simp
        moreover have "\<forall>j. j \<noteq> i \<longrightarrow> ts3 ! j = ts ! j" using a1(2) a2(2) a3(2) by simp
        ultimately show ?thesis using rn by simp
      qed
    qed
  qed
qed

lemma length_pick: "length (fst (pick eng c workers batches i p)) = length (fst p)"
proof (cases p)
  case (fields ts r w)
  show ?thesis
  proof (cases "r = None \<and> i < length ts \<and> (ts ! i \<noteq> Todo \<or> in_flight ts < workers)")
    case True
    obtain ts' r' w' where s: "pick eng c workers batches i (ts, None, w) = (ts', r', w')"
      by (cases "pick eng c workers batches i (ts, None, w)") auto
    from True have "i < length ts" "ts ! i \<noteq> Todo \<or> in_flight ts < workers" by auto
    from pick_advance(1) [OF this s] s True fields show ?thesis by simp
  next
    case False
    then have "pick eng c workers batches i p = p" by (auto simp: pick_def fields)
    then show ?thesis by simp
  qed
qed

lemma length_run: "length (fst (run eng c workers batches sched p)) = length (fst p)"
  by (induction sched arbitrary: p) (simp_all add: length_pick)


lemma run_drain_settle:
  "\<forall>i \<in> set is. i < length ts \<Longrightarrow>
   \<exists>ts' raised' w'.
     run eng c workers batches (concat (map (\<lambda>i. [i, i, i]) is)) (ts, None, w) = (ts', raised', w') \<and>
     (raised' \<noteq> None \<or>
      (length ts' = length ts \<and> (\<forall>i \<in> set is. \<not> busy (ts' ! i)) \<and>
       (\<forall>j. j \<notin> set is \<longrightarrow> ts' ! j = ts ! j)))"
proof (induction "is" arbitrary: ts w)
  case Nil
  then show ?case by simp
next
  case (Cons i "is")
  from Cons.prems have i: "i < length ts" by simp
  from run_triple [OF i, of eng c workers batches w]
  obtain ts1 r1 w1 where t: "run eng c workers batches [i, i, i] (ts, None, w) = (ts1, r1, w1)"
    "r1 \<noteq> None \<or> (length ts1 = length ts \<and> \<not> busy (ts1 ! i) \<and> (\<forall>j. j \<noteq> i \<longrightarrow> ts1 ! j = ts ! j))"
    by blast
  have unf: "run eng c workers batches (concat (map (\<lambda>i. [i, i, i]) (i # is))) (ts, None, w)
      = run eng c workers batches (concat (map (\<lambda>i. [i, i, i]) is)) (ts1, r1, w1)"
    using t(1) run_append [of eng c workers batches "[i, i, i]"] by simp
  show ?case
  proof (cases r1)
    case (Some e)
    then show ?thesis unfolding unf by simp
  next
    case None
    with t(2) have l1: "length ts1 = length ts" and b1: "\<not> busy (ts1 ! i)"
      and o1: "\<And>j. j \<noteq> i \<Longrightarrow> ts1 ! j = ts ! j" by auto
    from Cons.prems l1 have "\<forall>i \<in> set is. i < length ts1" by simp
    from Cons.IH [OF this, of w1]
    obtain ts' r' w' where f: "run eng c workers batches (concat (map (\<lambda>i. [i, i, i]) is)) (ts1, None, w1) = (ts', r', w')"
      "r' \<noteq> None \<or> (length ts' = length ts1 \<and> (\<forall>i \<in> set is. \<not> busy (ts' ! i)) \<and>
         (\<forall>j. j \<notin> set is \<longrightarrow> ts' ! j = ts1 ! j))" by blast
    show ?thesis unfolding unf None f(1)
      using f(2) l1 b1 o1 by (cases "i \<in> set is") auto
  qed
qed

lemma run_drain_finish:
  "\<forall>i \<in> set is. i < length ts \<Longrightarrow> in_flight ts = 0 \<Longrightarrow> 0 < workers \<Longrightarrow>
   \<exists>ts' raised' w'.
     run eng c workers batches (concat (map (\<lambda>i. [i, i, i]) is)) (ts, None, w) = (ts', raised', w') \<and>
     (raised' \<noteq> None \<or>
      (length ts' = length ts \<and> (\<forall>i \<in> set is. \<exists>slots. ts' ! i = Done slots) \<and>
       (\<forall>j. j \<notin> set is \<longrightarrow> ts' ! j = ts ! j)))"
proof (induction "is" arbitrary: ts w)
  case Nil
  then show ?case by simp
next
  case (Cons i "is")
  from Cons.prems have i: "i < length ts" by simp
  from run_triple [OF i, of eng c workers batches w] Cons.prems(2,3)
  obtain ts1 r1 w1 where t: "run eng c workers batches [i, i, i] (ts, None, w) = (ts1, r1, w1)"
    "r1 \<noteq> None \<or> (length ts1 = length ts \<and> (\<exists>slots. ts1 ! i = Done slots) \<and> (\<forall>j. j \<noteq> i \<longrightarrow> ts1 ! j = ts ! j))"
    by auto
  have unf: "run eng c workers batches (concat (map (\<lambda>i. [i, i, i]) (i # is))) (ts, None, w)
      = run eng c workers batches (concat (map (\<lambda>i. [i, i, i]) is)) (ts1, r1, w1)"
    using t(1) run_append [of eng c workers batches "[i, i, i]"] by simp
  show ?case
  proof (cases r1)
    case (Some e)
    then show ?thesis unfolding unf by simp
  next
    case None
    with t(2) have l1: "length ts1 = length ts" and b1: "\<exists>slots. ts1 ! i = Done slots"
      and o1: "\<And>j. j \<noteq> i \<Longrightarrow> ts1 ! j = ts ! j" by auto
    have "\<not> busy (ts1 ! j)" if "j < length ts1" for j
    proof (cases "j = i")
      case True with b1 show ?thesis by auto
    next
      case False
      from Cons.prems(2) that l1 have "\<not> busy (ts ! j)" by (simp add: in_flight_zero)
      with o1 [OF False] show ?thesis by simp
    qed
    then have z1: "in_flight ts1 = 0" by (auto simp: in_flight_zero in_set_conv_nth)
    from Cons.prems l1 have "\<forall>i \<in> set is. i < length ts1" by simp
    from Cons.IH [OF this z1 Cons.prems(3), of w1]
    obtain ts' r' w' where f: "run eng c workers batches (concat (map (\<lambda>i. [i, i, i]) is)) (ts1, None, w1) = (ts', r', w')"
      "r' \<noteq> None \<or> (length ts' = length ts1 \<and> (\<forall>i \<in> set is. \<exists>slots. ts' ! i = Done slots) \<and>
         (\<forall>j. j \<notin> set is \<longrightarrow> ts' ! j = ts1 ! j))" by blast
    show ?thesis unfolding unf None f(1)
      using f(2) l1 b1 o1 by (cases "i \<in> set is") auto
  qed
qed

lemma run_complete:
  assumes w: "0 < workers"
    and r: "run eng c workers batches (sched @ drain n @ drain n) (ts0, r0, w0) = (ts, None, w')"
    and n: "length ts0 = n"
  shows "length ts = n \<and> (\<forall>i < n. \<exists>slots. ts ! i = Done slots)"
proof -
  obtain ts1 r1 w1 where s1: "run eng c workers batches sched (ts0, r0, w0) = (ts1, r1, w1)"
    by (cases "run eng c workers batches sched (ts0, r0, w0)") auto
  have l1: "length ts1 = n"
    using length_run [of eng c workers batches sched "(ts0, r0, w0)"] s1 n by simp
  from r s1 have r': "run eng c workers batches (drain n @ drain n) (ts1, r1, w1) = (ts, None, w')"
    by (simp add: run_append)
  then have r1: "r1 = None" by (cases r1) auto
  have idx: "\<forall>i \<in> set [0..<n]. i < length ts1" using l1 by simp
  from run_drain_settle [OF idx, of eng c workers batches w1]
  obtain ts2 r2 w2 where s2: "run eng c workers batches (drain n) (ts1, None, w1) = (ts2, r2, w2)"
    "r2 \<noteq> None \<or> (length ts2 = length ts1 \<and> (\<forall>i \<in> set [0..<n]. \<not> busy (ts2 ! i)))"
    unfolding drain_def by blast
  from r' r1 s2(1) have r'': "run eng c workers batches (drain n) (ts2, r2, w2) = (ts, None, w')"
    by (simp add: run_append)
  then have r2: "r2 = None" by (cases r2) auto
  with s2(2) l1 have l2: "length ts2 = n" and "\<forall>i < n. \<not> busy (ts2 ! i)" by auto
  then have z2: "in_flight ts2 = 0" by (auto simp: in_flight_zero in_set_conv_nth)
  have idx2: "\<forall>i \<in> set [0..<n]. i < length ts2" using l2 by simp
  from run_drain_finish [OF idx2 z2 w, of eng c batches w2]
  obtain ts3 r3 w3 where s3: "run eng c workers batches (drain n) (ts2, None, w2) = (ts3, r3, w3)"
    "r3 \<noteq> None \<or> (length ts3 = length ts2 \<and> (\<forall>i \<in> set [0..<n]. \<exists>slots. ts3 ! i = Done slots))"
    unfolding drain_def by blast
  from r'' r2 s3(1) have "ts3 = ts" "r3 = None" by simp_all
  with s3(2) l2 show ?thesis by auto
qed

section \<open>What the dispatch returns\<close>

lemma effective_n_jobs_pos: "effective_n_jobs cpu jobs = Inr workers \<Longrightarrow> 0 < workers"
  by (auto simp: effective_n_jobs_def split: if_splits)

lemma Parallel_refused:
  "effective_n_jobs cpu jobs = Inl e \<Longrightarrow> Parallel eng c cpu jobs sched batches w = (Inl e, w)"
  by (simp add: Parallel_def)

lemma Parallel_run:
  assumes "effective_n_jobs cpu jobs = Inr workers"
    and "run eng c workers batches (sched @ drain (length batches) @ drain (length batches))
           (replicate (length batches) Todo, None, w) = (ts, raised, w')"
  shows "Parallel eng c cpu jobs sched batches w =
           (case raised of Some e \<Rightarrow> Inl e | None \<Rightarrow> Inr (map returned ts), w')"
  using assms by (simp add: Parallel_def split: option.splits)

lemma Parallel_frame:
  assumes "Parallel eng c cpu jobs sched batches w = (r, w')"
  shows "db w' = db w"
    and "\<And>path. (\<forall>i. path \<noteq> batch_parquet i) \<Longrightarrow> files w' path = files w path"
    and "\<exists>evs. log w' = log w @ evs \<and> (\<forall>ev \<in> set evs. retrieval_event c ev)"
proof -
  have "db w' = db w \<and> (\<forall>path. (\<forall>i. path \<noteq> batch_parquet i) \<longrightarrow> files w' path = files w path) \<and>
    (\<exists>evs. log w' = log w @ evs \<and> (\<forall>ev \<in> set evs. retrieval_event c ev))"
  proof (cases "effective_n_jobs cpu jobs")
    case (Inl e)
    from Parallel_refused [OF this, of eng c sched batches w] assms have "w' = w" by simp
    then show ?thesis by simp
  next
    case (Inr workers)
    obtain ts raised w1 where rn:
      "run eng c workers batches (sched @ drain (length batches) @ drain (length batches))
           (replicate (length batches) Todo, None, w) = (ts, raised, w1)"
      by (metis prod_cases3)
    from Parallel_run [OF Inr rn] assms have w1: "w1 = w'" by simp
    from pool_inv_run [OF pool_inv_init, of eng c workers batches w] rn
    have "pool_inv eng c workers batches w (ts, raised, w1)" by metis
    then show ?thesis unfolding w1 pool_inv_def by simp
  qed
  then show "db w' = db w"
    and "\<And>path. (\<forall>i. path \<noteq> batch_parquet i) \<Longrightarrow> files w' path = files w path"
    and "\<exists>evs. log w' = log w @ evs \<and> (\<forall>ev \<in> set evs. retrieval_event c ev)"
    by auto
qed

lemma Parallel_Inr:
  assumes "Parallel eng c cpu jobs sched batches w = (Inr rs, w')"
  shows "length rs = length batches"
    and "\<And>i. i < length batches \<Longrightarrow> batch_outcome eng c (db w) (batches ! i) = Inr (rs ! i)"
    and "\<And>i. i < length batches \<Longrightarrow> files w' (batch_parquet i) = None"
    and "\<exists>workers. effective_n_jobs cpu jobs = Inr workers"
proof -
  from assms obtain workers where wk: "effective_n_jobs cpu jobs = Inr workers"
    by (cases "effective_n_jobs cpu jobs") (auto simp: Parallel_def)
  obtain ts raised w1 where rn:
    "run eng c workers batches (sched @ drain (length batches) @ drain (length batches))
         (replicate (length batches) Todo, None, w) = (ts, raised, w1)"
    by (metis prod_cases3)
  from Parallel_run [OF wk rn] assms have r: "raised = None" "w1 = w'" "rs = map returned ts"
    by (auto split: option.splits)
  from run_complete [OF effective_n_jobs_pos [OF wk] rn [unfolded r(1)]]
  have len: "length ts = length batches" and dn: "\<And>i. i < length batches \<Longrightarrow> \<exists>slots. ts ! i = Done slots"
    by auto
  from pool_inv_run [OF pool_inv_init, of eng c workers batches w] rn
  have "pool_inv eng c workers batches w (ts, raised, w1)" by metis
  then have ok: "\<And>i. i < length batches \<Longrightarrow> task_ok eng c (db w) (batches ! i) i (ts ! i) w1"
    by (simp add: pool_inv_def)
  show "length rs = length batches" using r len by simp
  show "batch_outcome eng c (db w) (batches ! i) = Inr (rs ! i)" if "i < length batches" for i
    using ok [OF that] dn [OF that] that len r by (auto simp: task_ok_def returned_def)
  show "files w' (batch_parquet i) = None" if "i < length batches" for i
    using ok [OF that] dn [OF that] that len r by (auto simp: task_ok_def)
  show "\<exists>workers. effective_n_jobs cpu jobs = Inr workers" using wk by blast
qed

lemma Parallel_Inl:
  assumes "Parallel eng c cpu jobs sched batches w = (Inl e, w')"
  shows "effective_n_jobs cpu jobs = Inl e \<or>
         (\<exists>i < length batches. batch_outcome eng c (db w) (batches ! i) = Inl e)"
proof (cases "effective_n_jobs cpu jobs")
  case (Inl e')
  from Parallel_refused [OF this, of eng c sched batches w] assms show ?thesis using Inl by simp
next
  case (Inr workers)
  obtain ts raised w1 where rn:
    "run eng c workers batches (sched @ drain (length batches) @ drain (length batches))
         (replicate (length batches) Todo, None, w) = (ts, raised, w1)"
    by (metis prod_cases3)
  from Parallel_run [OF Inr rn] assms have r: "raised = Some e"
    by (auto split: option.splits)
  from pool_inv_run [OF pool_inv_init, of eng c workers batches w] rn
  have "pool_inv eng c workers batches w (ts, raised, w1)" by metis
  with r show ?thesis by (simp add: pool_inv_def)
qed

lemma Parallel_schedule_free:
  assumes "Parallel eng c cpu jobs sched batches w = (Inr rs, w')"
  shows "fst (Parallel eng c cpu jobs sched' batches w) = Inr rs"
proof -
  note a = Parallel_Inr [OF assms]
  obtain r w'' where p: "Parallel eng c cpu jobs sched' batches w = (r, w'')"
    by (cases "Parallel eng c cpu jobs sched' batches w") auto
  show ?thesis
  proof (cases r)
    case (Inl e)
    from Parallel_Inl [OF p [unfolded Inl]] a(2,4) show ?thesis by auto
  next
    case (Inr rs')
    note b = Parallel_Inr [OF p [unfolded Inr]]
    have "rs' = rs"
    proof (rule nth_equalityI)
      show "length rs' = length rs" using a(1) b(1) by simp
      fix i assume "i < length rs'"
      then have "i < length batches" using b(1) by simp
      from a(2) [OF this] b(2) [OF this] show "rs' ! i = rs ! i" by simp
    qed
    with p Inr show ?thesis by simp
  qed
qed

section \<open>What \<^verbatim>\<open>search\<close> returns\<close>

lemma search_eq:
  "search eng cpu sched c qa w =
     (case index_phase eng c (normalize_queries qa) w of
        (Inl e, w3) \<Rightarrow> (Inl e, w3)
      | (Inr u, w3) \<Rightarrow>
          (case Parallel eng c cpu (dispatch_n_jobs c (normalize_queries qa)) sched
                  (batches_of c (normalize_queries qa)) w3 of
             (Inl e, w4) \<Rightarrow> (Inl e, w4)
           | (Inr matchs, w4) \<Rightarrow> (Inr (concat matchs), w4)))"
  by (auto simp: search_def index_phase_def batches_of_def Let_def
      split: prod.splits sum.splits list.splits)

lemma index_phase_ok:
  assumes "select_settings_sql eng (schema c) (db w) = (Inr (st # sts), d0)"
    and "insert_queries_sql eng (schema c) qs d0 = (Inr (), d1)"
    and "create_queries_index_sql eng (schema c) st d1 = (Inr (), d2)"
  shows "index_phase eng c qs w =
    (Inr (), w\<lparr>files := (files w)(queries_parquet \<mapsto> qs), db := d2,
       log := log w @ [Select_settings, Write_table queries_parquet,
                       Execute ''search/insert/queries.sql'',
                       Execute ''search/create/queries_index.sql'']\<rparr>)"
  using assms
  by (simp add: index_phase_def select_settings_def write_table_def insert_queries_def
      with_parquet_def execute_with_duckdb_def create_queries_index_def Let_def)


lemma search_index_fails:
  "fst (index_phase eng c (normalize_queries qa) w) = Inl e \<Longrightarrow>
   fst (search eng cpu sched c qa w) = Inl e"
  by (cases "index_phase eng c (normalize_queries qa) w") (simp add: search_eq)

lemma search_Inr:
  assumes "fst (search eng cpu sched c qa w) = Inr rs"
  shows "\<exists>w3 rss. index_phase eng c (normalize_queries qa) w = (Inr (), w3) \<and>
      Parallel eng c cpu (dispatch_n_jobs c (normalize_queries qa)) sched (batches_of c (normalize_queries qa)) w3
        = (Inr rss, snd (search eng cpu sched c qa w)) \<and>
      rs = concat rss"
  using assms
  by (auto simp: search_eq split: prod.splits sum.splits)

lemma batch_outcome_Inr:
  assumes "batch_outcome eng c d rows = Inr slots"
  shows "\<exists>matchs. retrieve eng c d rows = Inr matchs \<and>
           (\<forall>m \<in> set matchs. map_of m ''_query'' \<noteq> None) \<and>
           slots = map (tagged_subsequence matchs) rows"
  using assms
  by (auto simp: batch_outcome_def collect_eq split: sum.splits if_splits)

lemma batchify_member:
  assumes "0 < n" and "i < length X"
  shows "X ! i \<in> set (batchify X n ! (i div n))"
proof -
  let ?g = "\<lambda>b x. x \<in> set b"
  from batchify_slot [OF assms, of ?g]
  have eq: "concat (map (\<lambda>b. map (?g b) b) (batchify X n)) ! i = ?g (batchify X n ! (i div n)) (X ! i)"
    by simp
  have all: "\<forall>v \<in> set (concat (map (\<lambda>b. map (?g b) b) bs)). v" for bs :: "'a list list"
    by (induction bs) auto
  have "i < length (concat (map (\<lambda>b. map (?g b) b) (batchify X n)))"
    using assms by (simp add: length_concat_batches)
  with all [of "batchify X n"] have "concat (map (\<lambda>b. map (?g b) b) (batchify X n)) ! i"
    using nth_mem by blast
  with eq show ?thesis by simp
qed

lemma search_slots:
  assumes bs: "0 < batch_size c" and ok: "fst (search eng cpu sched c qa w) = Inr rs"
  shows "length rs = length (normalize_queries qa)"
    and "\<And>i. i < length (normalize_queries qa) \<Longrightarrow>
          i div nat (batch_size c) < length (batches_of c (normalize_queries qa)) \<and>
          (\<exists>matchs.
             retrieve eng c (db (snd (search eng cpu sched c qa w)))
               (batches_of c (normalize_queries qa) ! (i div nat (batch_size c))) = Inr matchs \<and>
             (\<forall>m \<in> set matchs. map_of m ''_query'' \<noteq> None) \<and>
             rs ! i = tagged_subsequence matchs (normalize_queries qa ! i))"
proof -
  let ?Q = "normalize_queries qa" and ?n = "nat (batch_size c)"
  let ?w' = "snd (search eng cpu sched c qa w)"
  let ?B = "batches_of c ?Q"
  from bs have n: "0 < ?n" by simp
  from search_Inr [OF ok] obtain w3 rss where
    ip: "index_phase eng c ?Q w = (Inr (), w3)" and
    par: "Parallel eng c cpu (dispatch_n_jobs c ?Q) sched ?B w3 = (Inr rss, ?w')" and
    rs: "rs = concat rss" by blast
  note P = Parallel_Inr [OF par]
  from Parallel_frame(1) [OF par] have d: "db ?w' = db w3" .
  define g where "g b = tagged_subsequence (case retrieve eng c (db w3) b of Inr ms \<Rightarrow> ms | Inl e \<Rightarrow> [])" for b
  have each: "rss ! k = map (g (?B ! k)) (?B ! k)" if "k < length ?B" for k
    using batch_outcome_Inr [OF P(2) [OF that]] by (auto simp: g_def)
  have "rss = map (\<lambda>b. map (g b) b) ?B"
    by (rule nth_equalityI) (use P(1) each in auto)
  with rs have rs': "rs = concat (map (\<lambda>b. map (g b) b) (batchify ?Q ?n))"
    by (simp add: batches_of_def)
  show "length rs = length ?Q" unfolding rs' using n by (rule length_concat_batches)
  fix i assume i: "i < length ?Q"
  from batchify_slot [OF n i, of g] rs'
  have k: "i div ?n < length ?B" and at: "rs ! i = g (?B ! (i div ?n)) (?Q ! i)"
    by (simp_all add: batches_of_def)
  from batch_outcome_Inr [OF P(2) [OF k]] obtain matchs where
    m: "retrieve eng c (db w3) (?B ! (i div ?n)) = Inr matchs"
       "\<forall>m \<in> set matchs. map_of m ''_query'' \<noteq> None" by blast
  from at m(1) have "rs ! i = tagged_subsequence matchs (?Q ! i)" by (simp add: g_def)
  with k m d show "i div ?n < length ?B \<and>
          (\<exists>matchs. retrieve eng c (db ?w') (?B ! (i div ?n)) = Inr matchs \<and>
             (\<forall>m \<in> set matchs. map_of m ''_query'' \<noteq> None) \<and>
             rs ! i = tagged_subsequence matchs (?Q ! i))" by auto
qed

lemma search_schedule_free:
  assumes "fst (search eng cpu sched c qa w) = Inr rs"
  shows "fst (search eng cpu sched' c qa w) = Inr rs"
proof -
  from search_Inr [OF assms] obtain w3 rss where
    ip: "index_phase eng c (normalize_queries qa) w = (Inr (), w3)" and
    par: "Parallel eng c cpu (dispatch_n_jobs c (normalize_queries qa)) sched (batches_of c (normalize_queries qa)) w3
        = (Inr rss, snd (search eng cpu sched c qa w))" and
    rs: "rs = concat rss" by blast
  from Parallel_schedule_free [OF par, of sched']
  show ?thesis using ip rs
    by (cases "Parallel eng c cpu (dispatch_n_jobs c (normalize_queries qa)) sched'
                 (batches_of c (normalize_queries qa)) w3") (simp add: search_eq)
qed

section \<open>When a call succeeds; the demo engine\<close>

lemma search_succeeds:
  assumes ip: "index_phase eng c (normalize_queries qa) w = (Inr (), w3)"
    and wk: "effective_n_jobs cpu (dispatch_n_jobs c (normalize_queries qa)) = Inr workers"
    and all: "\<And>i. i < length (batches_of c (normalize_queries qa)) \<Longrightarrow>
        \<exists>slots. batch_outcome eng c (db w3) (batches_of c (normalize_queries qa) ! i) = Inr slots"
  shows "\<exists>rs. fst (search eng cpu sched c qa w) = Inr rs"
proof -
  let ?P = "Parallel eng c cpu (dispatch_n_jobs c (normalize_queries qa)) sched
              (batches_of c (normalize_queries qa)) w3"
  obtain r w4 where p: "?P = (r, w4)" by (cases ?P) auto
  show ?thesis
  proof (cases r)
    case (Inl e)
    from Parallel_Inl [OF p [unfolded Inl]] wk obtain i where
      i: "i < length (batches_of c (normalize_queries qa))"
        "batch_outcome eng c (db w3) (batches_of c (normalize_queries qa) ! i) = Inl e" by auto
    from all [OF i(1)] i(2) show ?thesis by simp
  next
    case (Inr rss)
    with p ip show ?thesis by (simp add: search_eq)
  qed
qed

lemma search_keeps_staged_file:
  assumes "fst (search eng cpu sched c qa w) = Inr rs"
  shows "files (snd (search eng cpu sched c qa w)) queries_parquet = Some (normalize_queries qa)"
proof -
  from search_Inr [OF assms] obtain w3 rss where
    ip: "index_phase eng c (normalize_queries qa) w = (Inr (), w3)" and
    par: "Parallel eng c cpu (dispatch_n_jobs c (normalize_queries qa)) sched
            (batches_of c (normalize_queries qa)) w3
        = (Inr rss, snd (search eng cpu sched c qa w))" by blast
  have "files w3 queries_parquet = Some (normalize_queries qa)"
    using ip
    by (auto simp: index_phase_def select_settings_def write_table_def insert_queries_def
        with_parquet_def execute_with_duckdb_def create_queries_index_def Let_def
        split: prod.splits sum.splits list.splits)
  moreover have "files (snd (search eng cpu sched c qa w)) queries_parquet = files w3 queries_parquet"
    by (rule Parallel_frame(2) [OF par]) simp
  ultimately show ?thesis by simp
qed

lemma demo_index_phase:
  "index_phase demo_engine c qs demo_world =
     (Inr (), \<lparr>files = (\<lambda>path. None)(queries_parquet \<mapsto> qs), db = qs,
        log = [Select_settings, Write_table queries_parquet,
               Execute ''search/insert/queries.sql'',
               Execute ''search/create/queries_index.sql'']\<rparr>)"
proof -
  have "index_phase demo_engine c qs demo_world =
    (Inr (), demo_world\<lparr>files := (files demo_world)(queries_parquet \<mapsto> qs), db := qs,
       log := log demo_world @ [Select_settings, Write_table queries_parquet,
                       Execute ''search/insert/queries.sql'',
                       Execute ''search/create/queries_index.sql'']\<rparr>)"
    by (rule index_phase_ok [where st = 0 and sts = "[]" and ?d0.0 = "[]" and ?d1.0 = qs])
       (simp_all add: demo_engine_def demo_world_def)
  then show ?thesis by (simp add: demo_world_def)
qed

lemma demo_retrieve:
  "retrieve demo_engine demo_config d rows =
     Inr (filter (\<lambda>m. \<exists>q \<in> set rows. tagged q m) demo_table)"
  by (simp add: retrieve_def demo_engine_def demo_config_def)

lemma demo_outcome:
  "batch_outcome demo_engine demo_config d rows =
     Inr (map (tagged_subsequence (filter (\<lambda>m. \<exists>q \<in> set rows. tagged q m) demo_table)) rows)"
  by (simp add: batch_outcome_def demo_retrieve collect_eq demo_table_def)

lemma demo_jobs: "\<exists>workers. effective_n_jobs 4 (dispatch_n_jobs demo_config qs) = Inr workers"
  by (simp add: effective_n_jobs_def dispatch_n_jobs_def demo_config_def)

lemma demo_succeeds:
  "\<exists>rs. fst (search demo_engine 4 sched demo_config qa demo_world) = Inr rs"
proof -
  from demo_jobs obtain workers where
    "effective_n_jobs 4 (dispatch_n_jobs demo_config (normalize_queries qa)) = Inr workers" by blast
  from search_succeeds [OF demo_index_phase this] show ?thesis by (simp add: demo_outcome)
qed

lemma filter_tagged_demo:
  "q \<in> set rows \<Longrightarrow>
   filter (tagged q) (filter (\<lambda>m. \<exists>q \<in> set rows. tagged q m) table) = filter (tagged q) table"
  by (induction table) auto

lemma demo_per_query: "retrieve_per_query demo_engine demo_config d"
  unfolding retrieve_per_query_def demo_retrieve
proof (intro allI impI)
  fix rows rows' matchs matchs' q
  assume a: "Inr (filter (\<lambda>m. \<exists>q \<in> set rows. tagged q m) demo_table) = (Inr matchs :: error + row list)"
    "Inr (filter (\<lambda>m. \<exists>q \<in> set rows'. tagged q m) demo_table) = (Inr matchs' :: error + row list)"
    "q \<in> set rows" "q \<in> set rows'"
  from a(1) have m: "matchs = filter (\<lambda>m. \<exists>q \<in> set rows. tagged q m) demo_table" by simp
  from a(2) have m': "matchs' = filter (\<lambda>m. \<exists>q \<in> set rows'. tagged q m) demo_table" by simp
  show "filter (tagged q) matchs = filter (tagged q) matchs'"
    unfolding m m' filter_tagged_demo [OF a(3)] filter_tagged_demo [OF a(4)] ..
qed

lemma demo_top_k: "retrieve_top_k demo_engine demo_config d"
proof -
  have a: "length (filter (tagged q) demo_table) \<le> 2" for q
    by (auto simp: demo_table_def tagged_def)
  have "length (filter (tagged q) (filter P table)) \<le> length (filter (tagged q) table)"
    for q P and table :: "row list"
    by (induction table) auto
  then have "length (filter (tagged q) (filter P demo_table)) \<le> length (filter (tagged q) demo_table)"
    for q P .
  with a have b: "length (filter (tagged q) (filter P demo_table)) \<le> 2" for q P
    using le_trans by blast
  have k: "top_k demo_config = 2" by (simp add: demo_config_def)
  show ?thesis
    unfolding retrieve_top_k_def demo_retrieve k
  proof (intro allI impI)
    fix rows matchs q
    assume "Inr (filter (\<lambda>m. \<exists>q \<in> set rows. tagged q m) demo_table) = (Inr matchs :: error + row list)"
    then have "matchs = filter (\<lambda>m. \<exists>q \<in> set rows. tagged q m) demo_table" by simp
    with b [of q "\<lambda>m. \<exists>q \<in> set rows. tagged q m"]
    show "int (length (filter (tagged q) matchs)) \<le> 2" by simp
  qed
qed

lemma demo_fields: "retrieve_fields demo_engine demo_config d"
  by (auto simp: retrieve_fields_def demo_retrieve demo_table_def)

section \<open>Further facts about a call\<close>

lemma run_no_tasks [simp]: "run eng c workers batches sched ([], r, w) = ([], r, w)"
  by (induction sched) (simp_all add: pick_def)

lemma map_of_untag: "map_of (untag m) k = (if k = ''_query'' then None else map_of m k)"
  unfolding untag_def by (induction m) auto

lemma search_world:
  "index_phase eng c (normalize_queries qa) w = (Inr (), w3) \<Longrightarrow>
   snd (search eng cpu sched c qa w) =
     snd (Parallel eng c cpu (dispatch_n_jobs c (normalize_queries qa)) sched
            (batches_of c (normalize_queries qa)) w3)"
  by (simp add: search_eq split: prod.splits sum.splits)

lemma retrieval_event_not_index:
  "retrieval_event c ev \<Longrightarrow>
   ev \<noteq> Execute ''search/insert/queries.sql'' \<and>
   ev \<noteq> Execute ''search/create/queries_index.sql'' \<and>
   ev \<noteq> Write_table queries_parquet \<and> ev \<noteq> Select_settings"
  by (auto simp: retrieval_event_def search_path_def split: option.splits)

lemma search_slot_bound:
  assumes "0 < batch_size c"
    and "retrieve_top_k eng c (db (snd (search eng cpu sched c qa w)))"
    and "fst (search eng cpu sched c qa w) = Inr rs"
    and "i < length rs"
  shows "int (length (rs ! i)) \<le> top_k c"
proof -
  from search_slots(1) [OF assms(1,3)] assms(4) have "i < length (normalize_queries qa)" by simp
  from search_slots(2) [OF assms(1,3) this] obtain matchs where
    m: "retrieve eng c (db (snd (search eng cpu sched c qa w)))
          (batches_of c (normalize_queries qa) ! (i div nat (batch_size c))) = Inr matchs"
       "rs ! i = tagged_subsequence matchs (normalize_queries qa ! i)" by blast
  from assms(2) m(1) have
    "int (length (filter (tagged (normalize_queries qa ! i)) matchs)) \<le> top_k c"
    unfolding retrieve_top_k_def by blast
  with m(2) show ?thesis by (simp add: tagged_subsequence_def)
qed

section \<open>One batch alone runs as \<^verbatim>\<open>_search\<close>\<close>

lemma pick_out_of_range:
  "length ts \<le> i \<Longrightarrow> pick eng c workers batches i (ts, r, w) = (ts, r, w)"
  by (simp add: pick_def)

lemma run_one_task:
  "length (fst p) = 1 \<Longrightarrow>
   \<exists>m. run eng c workers batches sched p = ((pick eng c workers batches 0) ^^ m) p"
proof (induction sched arbitrary: p)
  case Nil
  have "run eng c workers batches [] p = ((pick eng c workers batches 0) ^^ 0) p" by simp
  then show ?case by blast
next
  case (Cons i sched)
  show ?case
  proof (cases "i = 0")
    case True
    have "length (fst (pick eng c workers batches 0 p)) = 1"
      using Cons.prems by (simp add: length_pick)
    from Cons.IH [OF this] obtain m where
      "run eng c workers batches sched (pick eng c workers batches 0 p)
         = ((pick eng c workers batches 0) ^^ m) (pick eng c workers batches 0 p)" by blast
    then have "run eng c workers batches (i # sched) p = ((pick eng c workers batches 0) ^^ Suc m) p"
      using True by (simp add: funpow_swap1)
    then show ?thesis by blast
  next
    case False
    obtain ts r w where p: "p = (ts, r, w)" by (cases p)
    with Cons.prems False have "pick eng c workers batches i p = p"
      by (simp add: pick_out_of_range)
    with Cons.IH [OF Cons.prems] show ?thesis by simp
  qed
qed

lemma funpow_stable:
  "f ((f ^^ k) x) = (f ^^ k) x \<Longrightarrow> (f ^^ (k + n)) x = (f ^^ k) x"
  by (induction n) simp_all

lemma three_picks_fixed:
  assumes "0 < workers"
  shows "pick eng c workers batches 0 (run eng c workers batches [0, 0, 0] ([Todo], None, w))
         = run eng c workers batches [0, 0, 0] ([Todo], None, w)"
proof -
  have z: "in_flight [Todo] < workers" using assms by (simp add: in_flight_def)
  from run_triple [of 0 "[Todo]" eng c workers batches w] z
  obtain ts' r' w' where t: "run eng c workers batches [0, 0, 0] ([Todo], None, w) = (ts', r', w')"
    "r' \<noteq> None \<or> (length ts' = 1 \<and> (\<exists>slots. ts' ! 0 = Done slots))" by auto
  show ?thesis
  proof (cases r')
    case (Some e)
    then show ?thesis unfolding t(1) by (simp add: pick_def)
  next
    case None
    with t(2) obtain slots where "length ts' = 1" "ts' ! 0 = Done slots" by auto
    then show ?thesis unfolding t(1) None
      using list_update_id [of ts' 0] by (simp add: pick_def task_step_def)
  qed
qed

lemma run_one_task_serial:
  assumes "0 < workers"
  shows "run eng c workers batches (sched @ drain 1 @ drain 1) ([Todo], None, w)
         = run eng c workers batches [0, 0, 0] ([Todo], None, w)"
proof -
  let ?f = "pick eng c workers batches 0"
  let ?p = "([Todo], None, w)"
  have three: "run eng c workers batches [0, 0, 0] ?p = (?f ^^ 3) ?p"
    by (simp add: eval_nat_numeral)
  from three_picks_fixed [OF assms, of eng c batches w]
  have stay: "?f ((?f ^^ 3) ?p) = (?f ^^ 3) ?p" unfolding three .
  have "length (fst ?p) = 1" by simp
  from run_one_task [OF this, of eng c workers batches "sched @ drain 1"]
  obtain m where m: "run eng c workers batches (sched @ drain 1) ?p = (?f ^^ m) ?p" by blast
  have "run eng c workers batches (sched @ drain 1 @ drain 1) ?p
      = run eng c workers batches [0, 0, 0] ((?f ^^ m) ?p)"
    using m run_append [of eng c workers batches "sched @ drain 1" "drain 1" ?p]
    by (simp add: drain_def)
  also have "\<dots> = (?f ^^ 3) ((?f ^^ m) ?p)" by (simp add: eval_nat_numeral)
  also have "\<dots> = (?f ^^ (3 + m)) ?p" by (simp add: funpow_add)
  also have "\<dots> = (?f ^^ 3) ?p" by (rule funpow_stable [OF stay])
  finally show ?thesis unfolding three .
qed

lemma three_picks_search_batch:
  assumes "0 < workers"
  shows "(case run eng c workers [qs] [0, 0, 0] ([Todo], None, w) of
           (ts, Some e, w') \<Rightarrow> (Inl e, w')
         | (ts, None, w') \<Rightarrow> (Inr (concat (map returned ts)), w'))
         = search_batch eng c qs 0 w"
proof -
  have z: "\<not> workers \<le> in_flight [Todo]" using assms by (simp add: in_flight_def)
  have 1: "pick eng c workers [qs] 0 ([Todo], None, w)
         = ([Written], None, write_table qs (batch_parquet 0) w)"
    using z by (simp add: pick_def task_step_def)
  let ?w1 = "write_table qs (batch_parquet 0) w"
  obtain r w2 where sf: "search_function eng c (batch_parquet 0) ?w1 = (r, w2)"
    by (cases "search_function eng c (batch_parquet 0) ?w1") auto
  show ?thesis
  proof (cases r)
    case (Inl e)
    with sf have 2: "pick eng c workers [qs] 0 ([Written], None, ?w1) = ([Written], Some e, w2)"
      by (simp add: pick_def task_step_def)
    show ?thesis using sf Inl by (simp add: 1 2 search_batch_def Let_def)
  next
    case (Inr matchs)
    with sf have 2: "pick eng c workers [qs] 0 ([Written], None, ?w1) = ([Searched matchs], None, w2)"
      by (simp add: pick_def task_step_def)
    show ?thesis
    proof (cases "collect matchs qs")
      case e: (Inl e)
      then have 3: "pick eng c workers [qs] 0 ([Searched matchs], None, w2)
          = ([Searched matchs], Some e, remove_if_exists (batch_parquet 0) w2)"
        by (simp add: pick_def task_step_def Let_def)
      show ?thesis using sf Inr e by (simp add: 1 2 3 search_batch_def Let_def)
    next
      case s: (Inr slots)
      then have 3: "pick eng c workers [qs] 0 ([Searched matchs], None, w2)
          = ([Done slots], None, remove_if_exists (batch_parquet 0) w2)"
        by (simp add: pick_def task_step_def Let_def)
      show ?thesis using sf Inr s by (simp add: 1 2 3 search_batch_def Let_def returned_def)
    qed
  qed
qed

lemma batchify_fits: "X \<noteq> [] \<Longrightarrow> length X \<le> n \<Longrightarrow> batchify X n = [X]"
proof -
  assume a: "X \<noteq> []" "length X \<le> n"
  then have "0 < n" by (cases X) auto
  with a show ?thesis by (simp add: batchify_Cons)
qed

lemma Parallel_one_batch:
  "Parallel eng c cpu 1 sched [qs] w =
     (case search_batch eng c qs 0 w of
        (Inl e, w') \<Rightarrow> (Inl e, w')
      | (Inr slots, w') \<Rightarrow> (Inr [slots], w'))"
proof -
  have w: "effective_n_jobs cpu 1 = Inr 1" by (simp add: effective_n_jobs_def)
  have r: "run eng c 1 [qs] (sched @ drain (length [qs]) @ drain (length [qs]))
             (replicate (length [qs]) Todo, None, w)
         = run eng c 1 [qs] [0, 0, 0] ([Todo], None, w)"
    using run_one_task_serial [of 1 eng c "[qs]" sched w] by simp
  obtain ts raised w' where t: "run eng c 1 [qs] [0, 0, 0] ([Todo], None, w) = (ts, raised, w')"
    by (metis prod_cases3)
  from three_picks_search_batch [of 1 eng c qs w] t
  have sb: "search_batch eng c qs 0 w =
     (case raised of Some e \<Rightarrow> (Inl e, w') | None \<Rightarrow> (Inr (concat (map returned ts)), w'))"
    by (simp split: option.splits)
  have l: "length ts = 1" using length_run [of eng c 1 "[qs]" "[0, 0, 0]" "([Todo], None, w)"] t
    by simp
  then obtain t0 where ts: "ts = [t0]" by (cases ts) auto
  have "Parallel eng c cpu 1 sched [qs] w =
     (case run eng c 1 [qs] [0, 0, 0] ([Todo], None, w) of
        (ts, Some e, w') \<Rightarrow> (Inl e, w')
      | (ts, None, w') \<Rightarrow> (Inr (map returned ts), w'))"
    unfolding Parallel_def w using r by simp
  then show ?thesis
    unfolding t sb by (simp add: ts split: option.splits)
qed

section \<open>The claims\<close>

text \<open>
  C1. For every list of query strings, a call of search that returns hands back exactly
  one slot per query; slot i is the result list of query i, that is, the rows the engine
  tagged with that query's text in the batch the query belongs to; and the list returned
  is the same under every order in which the batches run and complete.
\<close>

theorem search_length_and_order:
  assumes "0 < batch_size c"
    and "fst (search eng cpu sched c (Many Q) w) = Inr rs"
  shows "length rs = length Q \<and>
     (\<forall>i < length Q. \<exists>matchs.
         retrieve eng c (db (snd (search eng cpu sched c (Many Q) w)))
           (batches_of c Q ! (i div nat (batch_size c))) = Inr matchs \<and>
         rs ! i = tagged_subsequence matchs (Q ! i)) \<and>
     (\<forall>sched'. fst (search eng cpu sched' c (Many Q) w) = Inr rs)"
  using search_slots [OF assms] search_schedule_free [OF assms(2)]
  by (simp add: normalize_queries_def) blast

theorem search_length_and_order_witness:
  "0 < batch_size demo_config \<and>
   (\<exists>rs. fst (search demo_engine 4 [1, 0, 1, 1, 0] demo_config
               (Many [''a'', ''b'', ''a'', ''zzz'']) demo_world) = Inr rs \<and>
         length rs = 4 \<and>
         rs ! 3 = [] \<and>
         fst (search demo_engine 4 [0, 0, 0, 1, 1, 1] demo_config
               (Many [''a'', ''b'', ''a'', ''zzz'']) demo_world) = Inr rs)"
proof -
  have b: "0 < batch_size demo_config" by (simp add: demo_config_def)
  from demo_succeeds obtain rs where
    rs: "fst (search demo_engine 4 [1, 0, 1, 1, 0] demo_config
               (Many [''a'', ''b'', ''a'', ''zzz'']) demo_world) = Inr rs" by blast
  note t = search_length_and_order [OF b rs]
  from t have "length rs = 4" by simp
  moreover from t have "fst (search demo_engine 4 [0, 0, 0, 1, 1, 1] demo_config
               (Many [''a'', ''b'', ''a'', ''zzz'']) demo_world) = Inr rs" by blast
  moreover from t [THEN conjunct2, THEN conjunct1, rule_format, of 3]
  have "\<exists>matchs.
         retrieve demo_engine demo_config (db (snd (search demo_engine 4 [1, 0, 1, 1, 0] demo_config
               (Many [''a'', ''b'', ''a'', ''zzz'']) demo_world)))
           (batches_of demo_config [''a'', ''b'', ''a'', ''zzz''] ! (3 div nat (batch_size demo_config))) = Inr matchs \<and>
         rs ! 3 = tagged_subsequence matchs ([''a'', ''b'', ''a'', ''zzz''] ! 3)" by simp
  then have "rs ! 3 = []"
    by (auto simp: demo_retrieve tagged_subsequence_def tagged_def demo_table_def)
  ultimately show ?thesis using b rs by blast
qed

text \<open>
  C2, as the code has it. Each batch removes its own parquet file once the engine has
  answered, also when the grouping then raises; so after a call of search that returns a
  result none of the per-batch files of the call is left, whatever the interleaving of
  the batches. A batch whose retrieval raises keeps its file.
\<close>

theorem batch_files_removed:
  "(\<forall>rs. fst (search eng cpu sched c qa w) = Inr rs \<longrightarrow>
      (\<forall>i < length (batches_of c (normalize_queries qa)).
         files (snd (search eng cpu sched c qa w)) (batch_parquet i) = None)) \<and>
   (\<forall>matchs. retrieve eng c (db w) qs = Inr matchs \<longrightarrow>
      files (snd (search_batch eng c qs index w)) (batch_parquet index) = None) \<and>
   (\<forall>e. retrieve eng c (db w) qs = Inl e \<longrightarrow>
      fst (search_batch eng c qs index w) = Inl e \<and>
      files (snd (search_batch eng c qs index w)) (batch_parquet index) = Some qs)"
proof (intro conjI allI impI)
  fix rs i
  assume ok: "fst (search eng cpu sched c qa w) = Inr rs"
    and i: "i < length (batches_of c (normalize_queries qa))"
  from search_Inr [OF ok] obtain w3 rss where
    par: "Parallel eng c cpu (dispatch_n_jobs c (normalize_queries qa)) sched
            (batches_of c (normalize_queries qa)) w3
        = (Inr rss, snd (search eng cpu sched c qa w))" by blast
  from Parallel_Inr(3) [OF par i]
  show "files (snd (search eng cpu sched c qa w)) (batch_parquet i) = None" .
next
  fix matchs
  assume "retrieve eng c (db w) qs = Inr matchs"
  then show "files (snd (search_batch eng c qs index w)) (batch_parquet index) = None"
    by (simp add: search_batch_eq)
next
  fix e
  assume e: "retrieve eng c (db w) qs = Inl e"
  then show "fst (search_batch eng c qs index w) = Inl e"
    by (simp add: search_batch_eq batch_outcome_def)
  from e show "files (snd (search_batch eng c qs index w)) (batch_parquet index) = Some qs"
    by (simp add: search_batch_eq)
qed

theorem batch_files_removed_witness:
  "(\<exists>rs. fst (search demo_engine 4 [1, 0, 1, 1, 0] demo_config
             (Many [''a'', ''b'', ''a'', ''zzz'']) demo_world) = Inr rs \<and>
        files (snd (search demo_engine 4 [1, 0, 1, 1, 0] demo_config
             (Many [''a'', ''b'', ''a'', ''zzz'']) demo_world)) ''_queries_1.parquet'' = None) \<and>
   files (snd (search_batch demo_engine demo_config [''b''] 1 demo_world))
     ''_queries_1.parquet'' = None \<and>
   files (snd (search_batch demo_engine (demo_config\<lparr>filters := Some ''id = 1''\<rparr>) [''b''] 1
                 demo_world)) ''_queries_1.parquet'' = Some [''b'']"
proof -
  from demo_succeeds obtain rs where
    rs: "fst (search demo_engine 4 [1, 0, 1, 1, 0] demo_config
               (Many [''a'', ''b'', ''a'', ''zzz'']) demo_world) = Inr rs" by blast
  have b: "batches_of demo_config [''a'', ''b'', ''a'', ''zzz''] = [[''a'', ''b''], [''a'', ''zzz'']]"
    by code_simp
  have n: "batch_parquet 1 = ''_queries_1.parquet''"
    by code_simp
  have f: "retrieve demo_engine (demo_config\<lparr>filters := Some ''id = 1''\<rparr>) (db demo_world) [''b'']
     = Inl (EngineError ''id = 1'')"
    by (simp add: retrieve_def demo_engine_def)
  note t = batch_files_removed [of demo_engine 4 "[1, 0, 1, 1, 0]" demo_config
      "Many [''a'', ''b'', ''a'', ''zzz'']" demo_world "[''b'']" 1]
  note u = batch_files_removed [of demo_engine 4 "[]" "demo_config\<lparr>filters := Some ''id = 1''\<rparr>"
      "Many []" demo_world "[''b'']" 1]
  from t [THEN conjunct1, THEN spec, THEN mp, OF rs, rule_format, of 1]
  have "files (snd (search demo_engine 4 [1, 0, 1, 1, 0] demo_config
             (Many [''a'', ''b'', ''a'', ''zzz'']) demo_world)) (batch_parquet 1) = None"
    by (simp add: b normalize_queries_def)
  moreover from t [THEN conjunct2, THEN conjunct1, THEN spec, THEN mp, OF demo_retrieve]
  have "files (snd (search_batch demo_engine demo_config [''b''] 1 demo_world))
     (batch_parquet 1) = None" .
  moreover from u [THEN conjunct2, THEN conjunct2, THEN spec, THEN mp, OF f, THEN conjunct2]
  have "files (snd (search_batch demo_engine (demo_config\<lparr>filters := Some ''id = 1''\<rparr>) [''b''] 1
                 demo_world)) (batch_parquet 1) = Some [''b'']" .
  ultimately show ?thesis using rs unfolding n by blast
qed

text \<open>
  C2, as the claim states it, fails twice. A call that succeeds leaves the staged file
  \<^verbatim>\<open>_queries.parquet\<close> behind, and a call whose retrieval raises leaves the file of
  the failing batch behind as well.
\<close>

theorem exchange_files_left_behind:
  "files (snd (search demo_engine 4 [] demo_config (Many [''a'']) demo_world))
     ''_queries.parquet'' = Some [''a''] \<and>
   fst (search demo_engine 4 [] (demo_config\<lparr>filters := Some ''id = 1''\<rparr>) (Many [''a''])
          demo_world) = Inl (EngineError ''id = 1'') \<and>
   files (snd (search demo_engine 4 [] (demo_config\<lparr>filters := Some ''id = 1''\<rparr>) (Many [''a''])
          demo_world)) ''_queries_0.parquet'' = Some [''a'']"
proof -
  from demo_succeeds obtain rs where
    "fst (search demo_engine 4 [] demo_config (Many [''a'']) demo_world) = Inr rs" by blast
  from search_keeps_staged_file [OF this]
  have 1: "files (snd (search demo_engine 4 [] demo_config (Many [''a'']) demo_world))
     ''_queries.parquet'' = Some [''a'']"
    by (simp add: queries_parquet_def normalize_queries_def)
  let ?c = "demo_config\<lparr>filters := Some ''id = 1''\<rparr>"
  have b: "batches_of ?c [''a''] = [[''a'']]"
    by (simp add: batches_of_def demo_config_def batchify_Cons)
  have n: "batch_parquet 0 = ''_queries_0.parquet''"
    by code_simp
  have j: "effective_n_jobs 4 (dispatch_n_jobs ?c [''a'']) = Inr 1"
    by (simp add: effective_n_jobs_def dispatch_n_jobs_def demo_config_def)
  have f: "filters ?c = Some ''id = 1''" by simp
  let ?w3 = "\<lparr>files = (\<lambda>path. None)(queries_parquet \<mapsto> [''a'']), db = [''a''],
        log = [Select_settings, Write_table queries_parquet,
               Execute ''search/insert/queries.sql'',
               Execute ''search/create/queries_index.sql'']\<rparr>"
  have d: "dispatch_n_jobs ?c [''a''] = 1"
    by (simp add: dispatch_n_jobs_def demo_config_def)
  have p: "Parallel demo_engine ?c 4 1 [] [[''a'']] ?w3 =
    (Inl (EngineError ''id = 1''),
     \<lparr>files = (\<lambda>path. None)(queries_parquet \<mapsto> [''a''], ''_queries_0.parquet'' \<mapsto> [''a'']),
      db = [''a''],
      log = [Select_settings, Write_table queries_parquet,
             Execute ''search/insert/queries.sql'',
             Execute ''search/create/queries_index.sql'',
             Write_table ''_queries_0.parquet'',
             Execute ''search/select/search_filters.sql'']\<rparr>)"
    by (simp add: Parallel_def effective_n_jobs_def drain_def
        pick_def task_step_def in_flight_def n write_table_def search_function_def f
        search_query_filters_def with_parquet_def execute_with_duckdb_def demo_engine_def)
  have s: "search demo_engine 4 [] ?c (Many [''a'']) demo_world =
    (Inl (EngineError ''id = 1''),
     \<lparr>files = (\<lambda>path. None)(queries_parquet \<mapsto> [''a''], ''_queries_0.parquet'' \<mapsto> [''a'']),
      db = [''a''],
      log = [Select_settings, Write_table queries_parquet,
             Execute ''search/insert/queries.sql'',
             Execute ''search/create/queries_index.sql'',
             Write_table ''_queries_0.parquet'',
             Execute ''search/select/search_filters.sql'']\<rparr>)"
    unfolding search_eq by (simp add: normalize_queries_def demo_index_phase d b p)
  from 1 s show ?thesis by (simp add: queries_parquet_def)
qed

text \<open>
  C3. Two positions that hold the same query text get equal slots, also when they fall
  into different batches, given the engine's contract that the rows it returns for a
  text do not depend on what else is in the artifact.
\<close>

theorem duplicate_queries_equal_slots:
  assumes "0 < batch_size c"
    and "retrieve_per_query eng c (db (snd (search eng cpu sched c (Many Q) w)))"
    and "fst (search eng cpu sched c (Many Q) w) = Inr rs"
    and "i < length Q" and "j < length Q" and "Q ! i = Q ! j"
  shows "rs ! i = rs ! j"
proof -
  let ?n = "nat (batch_size c)" and ?d = "db (snd (search eng cpu sched c (Many Q) w))"
  have Q: "normalize_queries (Many Q) = Q" by (simp add: normalize_queries_def)
  from assms(1) have n: "0 < ?n" by simp
  from search_slots(2) [OF assms(1,3), of i] assms(4) obtain mi where
    mi: "retrieve eng c ?d (batches_of c Q ! (i div ?n)) = Inr mi"
        "rs ! i = tagged_subsequence mi (Q ! i)" unfolding Q by blast
  from search_slots(2) [OF assms(1,3), of j] assms(5) obtain mj where
    mj: "retrieve eng c ?d (batches_of c Q ! (j div ?n)) = Inr mj"
        "rs ! j = tagged_subsequence mj (Q ! j)" unfolding Q by blast
  have "Q ! i \<in> set (batches_of c Q ! (i div ?n))"
    unfolding batches_of_def by (rule batchify_member [OF n assms(4)])
  moreover have "Q ! i \<in> set (batches_of c Q ! (j div ?n))"
    unfolding batches_of_def assms(6) by (rule batchify_member [OF n assms(5)])
  ultimately have "filter (tagged (Q ! i)) mi = filter (tagged (Q ! i)) mj"
    using assms(2) mi(1) mj(1) unfolding retrieve_per_query_def by blast
  with mi(2) mj(2) assms(6) show ?thesis by (simp add: tagged_subsequence_def)
qed

theorem duplicate_queries_equal_slots_witness:
  "\<exists>rs. fst (search demo_engine 4 [1, 0, 1, 1, 0] demo_config
             (Many [''a'', ''b'', ''a'', ''zzz'']) demo_world) = Inr rs \<and> rs ! 0 = rs ! 2"
proof -
  from demo_succeeds obtain rs where
    rs: "fst (search demo_engine 4 [1, 0, 1, 1, 0] demo_config
               (Many [''a'', ''b'', ''a'', ''zzz'']) demo_world) = Inr rs" by blast
  have b: "0 < batch_size demo_config" by (simp add: demo_config_def)
  from duplicate_queries_equal_slots [OF b demo_per_query rs, of 0 2]
  have "rs ! 0 = rs ! 2" by simp
  with rs show ?thesis by blast
qed

text \<open>
  C4. A failure of the index phase is the result of the call, unchanged. When the index
  phase succeeded and the retrieval of some batch fails, the call raises under every
  schedule, and what it raises is the exception of a batch (or joblib's refusal of
  \<^verbatim>\<open>n_jobs = 0\<close>); it never returns a list.
\<close>

theorem search_fails_fast:
  "(fst (index_phase eng c (normalize_queries qa) w) = Inl e \<longrightarrow>
      fst (search eng cpu sched c qa w) = Inl e) \<and>
   (index_phase eng c (normalize_queries qa) w = (Inr (), w3) \<longrightarrow>
    i < length (batches_of c (normalize_queries qa)) \<longrightarrow>
    retrieve eng c (db w3) (batches_of c (normalize_queries qa) ! i) = Inl e \<longrightarrow>
      (\<exists>e'. fst (search eng cpu sched c qa w) = Inl e' \<and>
         (effective_n_jobs cpu (dispatch_n_jobs c (normalize_queries qa)) = Inl e' \<or>
          (\<exists>j < length (batches_of c (normalize_queries qa)).
             batch_outcome eng c (db w3) (batches_of c (normalize_queries qa) ! j) = Inl e'))))"
proof (intro conjI impI)
  assume "fst (index_phase eng c (normalize_queries qa) w) = Inl e"
  then show "fst (search eng cpu sched c qa w) = Inl e" by (rule search_index_fails)
next
  let ?B = "batches_of c (normalize_queries qa)"
  let ?P = "Parallel eng c cpu (dispatch_n_jobs c (normalize_queries qa)) sched ?B w3"
  assume ip: "index_phase eng c (normalize_queries qa) w = (Inr (), w3)"
    and i: "i < length ?B" and f: "retrieve eng c (db w3) (?B ! i) = Inl e"
  obtain r w4 where p: "?P = (r, w4)" by (cases ?P) auto
  show "\<exists>e'. fst (search eng cpu sched c qa w) = Inl e' \<and>
         (effective_n_jobs cpu (dispatch_n_jobs c (normalize_queries qa)) = Inl e' \<or>
          (\<exists>j < length ?B. batch_outcome eng c (db w3) (?B ! j) = Inl e'))"
  proof (cases r)
    case (Inr rss)
    from Parallel_Inr(2) [OF p [unfolded Inr] i] f show ?thesis
      by (simp add: batch_outcome_def)
  next
    case (Inl e')
    from p Inl ip have "fst (search eng cpu sched c qa w) = Inl e'" by (simp add: search_eq)
    with Parallel_Inl [OF p [unfolded Inl]] show ?thesis by blast
  qed
qed

theorem search_fails_fast_witness:
  "fst (search demo_engine 4 [0, 0] (demo_config\<lparr>filters := Some ''id = 1''\<rparr>)
         (Many [''a'', ''b'', ''c'']) demo_world) = Inl (EngineError ''id = 1'')"
proof -
  let ?c = "demo_config\<lparr>filters := Some ''id = 1''\<rparr>"
  let ?Q = "[''a'', ''b'', ''c'']"
  have b: "batches_of ?c ?Q = [[''a'', ''b''], [''c'']]"
    by (simp add: batches_of_def demo_config_def batchify_Cons)
  have j: "effective_n_jobs 4 (dispatch_n_jobs ?c ?Q) = Inr 4"
    by (simp add: effective_n_jobs_def dispatch_n_jobs_def demo_config_def)
  have r: "retrieve demo_engine ?c d rows = Inl (EngineError ''id = 1'')" for d rows
    by (simp add: retrieve_def demo_engine_def)
  have o: "batch_outcome demo_engine ?c d rows = Inl (EngineError ''id = 1'')" for d rows
    by (simp add: batch_outcome_def r)
  from search_fails_fast [of demo_engine ?c "Many ?Q" demo_world _ 4 "[0, 0]" _ 1,
      THEN conjunct2, rule_format, OF demo_index_phase]
  have "\<exists>e'. fst (search demo_engine 4 [0, 0] ?c (Many ?Q) demo_world) = Inl e' \<and>
         (effective_n_jobs 4 (dispatch_n_jobs ?c ?Q) = Inl e' \<or>
          (\<exists>j < length (batches_of ?c ?Q).
             batch_outcome demo_engine ?c ?Q (batches_of ?c ?Q ! j) = Inl e'))"
    by (simp add: normalize_queries_def b r)
  then show ?thesis by (auto simp: j o)
qed

text \<open>
  C5. Once the index is built, search hands its batches to the dispatch with one worker
  when the query set fits one batch, and with the caller's \<^verbatim>\<open>n_jobs\<close> otherwise, where
  \<^verbatim>\<open>-1\<close> stands for all processors. What search returns is what that run of the pool
  leaves, and at no moment of the run are more batches in flight than there are workers.
  A query set that fits one batch is searched exactly as one call of \<^verbatim>\<open>_search\<close>,
  whatever the scheduler does.
\<close>

theorem dispatch_policy:
  assumes "index_phase eng c (normalize_queries qa) w = (Inr (), w3)"
  shows
    "search eng cpu sched c qa w =
       (case Parallel eng c cpu
               (if int (length (normalize_queries qa)) \<le> batch_size c then 1 else n_jobs c)
               sched (batches_of c (normalize_queries qa)) w3 of
          (Inl e, w4) \<Rightarrow> (Inl e, w4)
        | (Inr matchs, w4) \<Rightarrow> (Inr (concat matchs), w4)) \<and>
     (\<forall>workers.
        effective_n_jobs cpu
          (if int (length (normalize_queries qa)) \<le> batch_size c then 1 else n_jobs c)
          = Inr workers \<longrightarrow>
        (int (length (normalize_queries qa)) \<le> batch_size c \<longrightarrow> workers = 1) \<and>
        (\<not> int (length (normalize_queries qa)) \<le> batch_size c \<longrightarrow> n_jobs c = - 1 \<longrightarrow>
           workers = max cpu 1) \<and>
        (\<not> int (length (normalize_queries qa)) \<le> batch_size c \<longrightarrow> 0 < n_jobs c \<longrightarrow>
           workers = nat (n_jobs c)) \<and>
        Parallel eng c cpu
          (if int (length (normalize_queries qa)) \<le> batch_size c then 1 else n_jobs c)
          sched (batches_of c (normalize_queries qa)) w3 =
          (case run eng c workers (batches_of c (normalize_queries qa))
                  (sched @ drain (length (batches_of c (normalize_queries qa)))
                         @ drain (length (batches_of c (normalize_queries qa))))
                  (replicate (length (batches_of c (normalize_queries qa))) Todo, None, w3) of
             (ts, Some e, w') \<Rightarrow> (Inl e, w')
           | (ts, None, w') \<Rightarrow> (Inr (map returned ts), w')) \<and>
        (\<forall>k. in_flight (fst (run eng c workers (batches_of c (normalize_queries qa))
                 (take k (sched @ drain (length (batches_of c (normalize_queries qa)))
                                @ drain (length (batches_of c (normalize_queries qa)))))
                 (replicate (length (batches_of c (normalize_queries qa))) Todo, None, w3)))
              \<le> workers)) \<and>
     (int (length (normalize_queries qa)) \<le> batch_size c \<longrightarrow> normalize_queries qa \<noteq> [] \<longrightarrow>
        search eng cpu sched c qa w = search_batch eng c (normalize_queries qa) 0 w3)"
proof (intro conjI allI impI)
  let ?Q = "normalize_queries qa"
  let ?B = "batches_of c ?Q"
  let ?j = "if int (length ?Q) \<le> batch_size c then 1 else n_jobs c"
  have j: "dispatch_n_jobs c ?Q = ?j" by (simp add: dispatch_n_jobs_def)
  show s: "search eng cpu sched c qa w =
       (case Parallel eng c cpu ?j sched ?B w3 of
          (Inl e, w4) \<Rightarrow> (Inl e, w4)
        | (Inr matchs, w4) \<Rightarrow> (Inr (concat matchs), w4))"
    using assms by (simp add: search_eq j)
  {
    assume fits: "int (length ?Q) \<le> batch_size c" and ne: "?Q \<noteq> []"
    from fits have "length ?Q \<le> nat (batch_size c)" by simp
    from batchify_fits [OF ne this] have B: "?B = [?Q]" by (simp add: batches_of_def)
    show "search eng cpu sched c qa w = search_batch eng c ?Q 0 w3"
      unfolding s B using fits
      by (cases "search_batch eng c ?Q 0 w3") (simp add: Parallel_one_batch split: sum.splits)
  }
  fix workers
  assume wk: "effective_n_jobs cpu ?j = Inr workers"
  {
    assume "int (length ?Q) \<le> batch_size c"
    with wk show "workers = 1" by (simp add: effective_n_jobs_def)
  }
  {
    assume "\<not> int (length ?Q) \<le> batch_size c" and "n_jobs c = - 1"
    with wk show "workers = max cpu 1" by (auto simp: effective_n_jobs_def)
  }
  {
    assume "\<not> int (length ?Q) \<le> batch_size c" and "0 < n_jobs c"
    with wk show "workers = nat (n_jobs c)" by (auto simp: effective_n_jobs_def)
  }
  show "Parallel eng c cpu ?j sched ?B w3 =
          (case run eng c workers ?B (sched @ drain (length ?B) @ drain (length ?B))
                  (replicate (length ?B) Todo, None, w3) of
             (ts, Some e, w') \<Rightarrow> (Inl e, w')
           | (ts, None, w') \<Rightarrow> (Inr (map returned ts), w'))"
    unfolding Parallel_def wk by (simp split: prod.splits option.splits)
  fix k
  let ?pre = "take k (sched @ drain (length ?B) @ drain (length ?B))"
  have "pool_inv eng c workers ?B w3 (run eng c workers ?B ?pre (replicate (length ?B) Todo, None, w3))"
    by (rule pool_inv_run [OF pool_inv_init])
  then show "in_flight (fst (run eng c workers ?B ?pre (replicate (length ?B) Todo, None, w3)))
      \<le> workers"
    by (cases "run eng c workers ?B ?pre (replicate (length ?B) Todo, None, w3)")
       (simp add: pool_inv_def)
qed

theorem dispatch_policy_witness:
  "search demo_engine 4 [0, 5, 0] demo_config (Single ''a'') demo_world =
     search_batch demo_engine demo_config [''a''] 0
       (snd (index_phase demo_engine demo_config [''a''] demo_world)) \<and>
   effective_n_jobs 4 (n_jobs demo_config) = Inr 4 \<and>
   in_flight (fst (run demo_engine demo_config 4 (batches_of demo_config [''a'', ''b'', ''a''])
       (take 3 ([1, 0, 1] @ drain (length (batches_of demo_config [''a'', ''b'', ''a'']))
                          @ drain (length (batches_of demo_config [''a'', ''b'', ''a'']))))
       (replicate (length (batches_of demo_config [''a'', ''b'', ''a''])) Todo, None,
        snd (index_phase demo_engine demo_config [''a'', ''b'', ''a''] demo_world)))) \<le> 4"
proof -
  have ipa: "index_phase demo_engine demo_config (normalize_queries (Single ''a'')) demo_world
      = (Inr (), snd (index_phase demo_engine demo_config [''a''] demo_world))"
    by (simp add: demo_index_phase normalize_queries_def)
  have ipb: "index_phase demo_engine demo_config (normalize_queries (Many [''a'', ''b'', ''a'']))
       demo_world
      = (Inr (), snd (index_phase demo_engine demo_config [''a'', ''b'', ''a''] demo_world))"
    by (simp add: demo_index_phase normalize_queries_def)
  have fits: "int (length (normalize_queries (Single ''a''))) \<le> batch_size demo_config"
    and ne: "normalize_queries (Single ''a'') \<noteq> []"
    by (simp_all add: normalize_queries_def demo_config_def)
  have j: "effective_n_jobs 4 (n_jobs demo_config) = Inr 4"
    by (simp add: effective_n_jobs_def demo_config_def)
  then have wk: "effective_n_jobs 4
      (if int (length (normalize_queries (Many [''a'', ''b'', ''a'']))) \<le> batch_size demo_config
       then 1 else n_jobs demo_config) = Inr 4"
    by (simp add: normalize_queries_def demo_config_def)
  from dispatch_policy [OF ipa, of 4 "[0, 5, 0]", THEN conjunct2, THEN conjunct2, THEN mp,
      THEN mp, OF fits ne]
  have 1: "search demo_engine 4 [0, 5, 0] demo_config (Single ''a'') demo_world =
     search_batch demo_engine demo_config [''a''] 0
       (snd (index_phase demo_engine demo_config [''a''] demo_world))"
    by (simp add: normalize_queries_def)
  from dispatch_policy [OF ipb, of 4 "[1, 0, 1]", THEN conjunct2, THEN conjunct1, THEN spec,
      THEN mp, OF wk, THEN conjunct2, THEN conjunct2, THEN conjunct2, THEN conjunct2,
      THEN spec, of 3]
  have 2: "in_flight (fst (run demo_engine demo_config 4 (batches_of demo_config [''a'', ''b'', ''a''])
       (take 3 ([1, 0, 1] @ drain (length (batches_of demo_config [''a'', ''b'', ''a'']))
                          @ drain (length (batches_of demo_config [''a'', ''b'', ''a'']))))
       (replicate (length (batches_of demo_config [''a'', ''b'', ''a''])) Todo, None,
        snd (index_phase demo_engine demo_config [''a'', ''b'', ''a''] demo_world)))) \<le> 4"
    by (simp add: normalize_queries_def)
  from 1 j 2 show ?thesis by blast
qed

text \<open>
  C6. When settings, loading and indexing succeed, a call of search does, in this order
  and once each: select the settings, write the whole query set to
  \<^verbatim>\<open>_queries.parquet\<close>, load it, build the index. Everything it does afterwards is a
  step of the retrieval phase, none of which loads or indexes again, and the database at
  the end is the one the index build left.
\<close>

theorem index_once_before_retrieval:
  assumes "select_settings_sql eng (schema c) (db w) = (Inr (st # sts), d0)"
    and "insert_queries_sql eng (schema c) (normalize_queries qa) d0 = (Inr (), d1)"
    and "create_queries_index_sql eng (schema c) st d1 = (Inr (), d2)"
  shows "\<exists>evs.
     log (snd (search eng cpu sched c qa w)) =
       log w @ [Select_settings, Write_table queries_parquet,
                Execute ''search/insert/queries.sql'',
                Execute ''search/create/queries_index.sql''] @ evs \<and>
     (\<forall>ev \<in> set evs. retrieval_event c ev) \<and>
     Execute ''search/insert/queries.sql'' \<notin> set evs \<and>
     Execute ''search/create/queries_index.sql'' \<notin> set evs \<and>
     Write_table queries_parquet \<notin> set evs \<and>
     db (snd (search eng cpu sched c qa w)) = d2 \<and>
     files (snd (search eng cpu sched c qa w)) queries_parquet = Some (normalize_queries qa)"
proof -
  let ?Q = "normalize_queries qa"
  let ?w3 = "w\<lparr>files := (files w)(queries_parquet \<mapsto> ?Q), db := d2,
       log := log w @ [Select_settings, Write_table queries_parquet,
                       Execute ''search/insert/queries.sql'',
                       Execute ''search/create/queries_index.sql'']\<rparr>"
  let ?P = "Parallel eng c cpu (dispatch_n_jobs c ?Q) sched (batches_of c ?Q) ?w3"
  have ip: "index_phase eng c ?Q w = (Inr (), ?w3)" by (rule index_phase_ok [OF assms])
  obtain r w4 where p: "?P = (r, w4)" by (cases ?P) auto
  from search_world [OF ip, of cpu sched] p have w4: "snd (search eng cpu sched c qa w) = w4"
    by simp
  from Parallel_frame(3) [OF p] obtain evs where
    evs: "log w4 = log ?w3 @ evs" "\<forall>ev \<in> set evs. retrieval_event c ev" by blast
  from evs(2) retrieval_event_not_index have
    "Execute ''search/insert/queries.sql'' \<notin> set evs"
    "Execute ''search/create/queries_index.sql'' \<notin> set evs"
    "Write_table queries_parquet \<notin> set evs" by blast+
  moreover from Parallel_frame(1) [OF p] have "db w4 = d2" by simp
  moreover have "files w4 queries_parquet = files ?w3 queries_parquet"
    by (rule Parallel_frame(2) [OF p]) simp
  ultimately show ?thesis unfolding w4 using evs by simp
qed

theorem index_once_before_retrieval_witness:
  "\<exists>evs.
     log (snd (search demo_engine 4 [1, 0] demo_config (Many [''a'', ''b'', ''a'']) demo_world)) =
       [Select_settings, Write_table ''_queries.parquet'',
        Execute ''search/insert/queries.sql'',
        Execute ''search/create/queries_index.sql''] @ evs \<and>
     Execute ''search/insert/queries.sql'' \<notin> set evs \<and>
     Execute ''search/create/queries_index.sql'' \<notin> set evs \<and>
     db (snd (search demo_engine 4 [1, 0] demo_config (Many [''a'', ''b'', ''a'']) demo_world))
       = [''a'', ''b'', ''a'']"
proof -
  have "select_settings_sql demo_engine (schema demo_config) (db demo_world) = (Inr (0 # []), [])"
    "insert_queries_sql demo_engine (schema demo_config)
       (normalize_queries (Many [''a'', ''b'', ''a''])) [] = (Inr (), [''a'', ''b'', ''a''])"
    "create_queries_index_sql demo_engine (schema demo_config) 0 [''a'', ''b'', ''a'']
       = (Inr (), [''a'', ''b'', ''a''])"
    by (simp_all add: demo_engine_def demo_world_def normalize_queries_def)
  from index_once_before_retrieval [OF this, of 4 "[1, 0]"]
  show ?thesis by (simp add: demo_world_def queries_parquet_def) blast
qed

text \<open>
  C7. The slot a batch returns at position i is the subsequence of the engine's rows
  tagged with the i-th query of the batch, in the engine's order, each row without its
  \<^verbatim>\<open>_query\<close> field and with every other field as it was.
\<close>

theorem slot_is_tagged_subsequence:
  assumes "fst (search_batch eng c qs index w) = Inr slots"
  shows "\<exists>matchs. retrieve eng c (db w) qs = Inr matchs \<and>
     length slots = length qs \<and>
     (\<forall>i < length qs.
        slots ! i = map untag (filter (\<lambda>m. map_of m ''_query'' = Some (Str (qs ! i))) matchs)) \<and>
     (\<forall>m k. map_of (untag m) k = (if k = ''_query'' then None else map_of m k))"
proof -
  from assms have "batch_outcome eng c (db w) qs = Inr slots" by (simp add: search_batch_eq)
  from batch_outcome_Inr [OF this] show ?thesis
    by (auto simp: tagged_subsequence_def tagged_eq map_of_untag)
qed

theorem slot_is_tagged_subsequence_witness:
  "\<exists>slots. fst (search_batch demo_engine demo_config [''b'', ''a''] 7 demo_world) = Inr slots \<and>
     length slots = 2 \<and>
     slots ! 0 = [[(''id'', Str ''d1''), (''score'', Num 2)]] \<and>
     slots ! 1 = [[(''id'', Str ''d1''), (''score'', Num 3)], [(''id'', Str ''d2''), (''score'', Num 1)]]"
proof -
  obtain slots where s: "fst (search_batch demo_engine demo_config [''b'', ''a''] 7 demo_world) = Inr slots"
    by (simp add: search_batch_eq demo_outcome)
  from slot_is_tagged_subsequence [OF s] obtain matchs where
    m: "retrieve demo_engine demo_config (db demo_world) [''b'', ''a''] = Inr matchs"
    and l: "length slots = length [''b'', ''a'']"
    and a: "\<forall>i < length [''b'', ''a''].
        slots ! i = map untag (filter (\<lambda>m. map_of m ''_query'' = Some (Str ([''b'', ''a''] ! i))) matchs)"
    by blast
  from m have matchs: "matchs = demo_table"
    by (simp add: demo_retrieve demo_table_def tagged_def)
  from a [rule_format, of 0] a [rule_format, of 1] l s show ?thesis
    by (simp add: matchs demo_table_def untag_def)
qed

text \<open>
  C8. No slot is longer than \<^verbatim>\<open>top_k\<close>, given the engine's contract that it returns at
  most \<^verbatim>\<open>top_k\<close> rows for a query text; the module itself never cuts a slot.
\<close>

theorem slot_at_most_top_k:
  assumes "0 < batch_size c"
    and "retrieve_top_k eng c (db (snd (search eng cpu sched c qa w)))"
    and "fst (search eng cpu sched c qa w) = Inr rs"
    and "i < length rs"
  shows "int (length (rs ! i)) \<le> top_k c"
  using assms by (rule search_slot_bound)

theorem slot_at_most_top_k_witness:
  "\<exists>rs. fst (search demo_engine 4 [1, 0, 1, 1, 0] demo_config
             (Many [''a'', ''b'', ''a'', ''zzz'']) demo_world) = Inr rs \<and>
        length rs = 4 \<and> int (length (rs ! 2)) \<le> 2"
proof -
  from demo_succeeds obtain rs where
    rs: "fst (search demo_engine 4 [1, 0, 1, 1, 0] demo_config
               (Many [''a'', ''b'', ''a'', ''zzz'']) demo_world) = Inr rs" by blast
  have b: "0 < batch_size demo_config" by (simp add: demo_config_def)
  from search_slots(1) [OF b rs] have l: "length rs = 4" by (simp add: normalize_queries_def)
  then have "2 < length rs" by simp
  from slot_at_most_top_k [OF b demo_top_k rs this] have "int (length (rs ! 2)) \<le> 2"
    by (simp add: demo_config_def)
  with rs l show ?thesis by blast
qed

text \<open>
  C9. A single string is searched as the one-element list holding it. The call then
  returns one slot, which, given the engine's contract, has at most \<^verbatim>\<open>top_k\<close> records,
  each with the fields \<^verbatim>\<open>id\<close> and \<^verbatim>\<open>score\<close>.
\<close>

theorem single_string_query:
  assumes "0 < batch_size c"
    and "retrieve_top_k eng c (db (snd (search eng cpu sched c (Single q) w)))"
    and "retrieve_fields eng c (db (snd (search eng cpu sched c (Single q) w)))"
    and "fst (search eng cpu sched c (Single q) w) = Inr rs"
  shows "search eng cpu sched c (Single q) w = search eng cpu sched c (Many [q]) w \<and>
     length rs = 1 \<and>
     int (length (rs ! 0)) \<le> top_k c \<and>
     (\<forall>r \<in> set (rs ! 0). map_of r ''id'' \<noteq> None \<and> map_of r ''score'' \<noteq> None)"
proof -
  have e: "search eng cpu sched c (Single q) w = search eng cpu sched c (Many [q]) w"
    by (simp add: search_def normalize_queries_def)
  from search_slots(1) [OF assms(1,4)] have l: "length rs = 1" by (simp add: normalize_queries_def)
  then have "0 < length rs" by simp
  from search_slot_bound [OF assms(1,2,4) this] have k: "int (length (rs ! 0)) \<le> top_k c" .
  from search_slots(2) [OF assms(1,4), of 0] obtain matchs where
    m: "retrieve eng c (db (snd (search eng cpu sched c (Single q) w)))
          (batches_of c (normalize_queries (Single q)) ! (0 div nat (batch_size c))) = Inr matchs"
       "rs ! 0 = tagged_subsequence matchs (normalize_queries (Single q) ! 0)"
    by (auto simp: normalize_queries_def)
  from assms(3) m(1) have
    f: "\<forall>m \<in> set matchs. map_of m ''id'' \<noteq> None \<and> map_of m ''score'' \<noteq> None"
    unfolding retrieve_fields_def by blast
  have "\<forall>r \<in> set (rs ! 0). map_of r ''id'' \<noteq> None \<and> map_of r ''score'' \<noteq> None"
    unfolding m(2) tagged_subsequence_def using f by (auto simp: map_of_untag)
  with e l k show ?thesis by simp
qed

theorem single_string_query_witness:
  "\<exists>rs. fst (search demo_engine 4 [] demo_config (Single ''a'') demo_world) = Inr rs \<and>
        length rs = 1 \<and> int (length (rs ! 0)) \<le> 2 \<and>
        (\<forall>r \<in> set (rs ! 0). map_of r ''id'' \<noteq> None \<and> map_of r ''score'' \<noteq> None)"
proof -
  from demo_succeeds obtain rs where
    rs: "fst (search demo_engine 4 [] demo_config (Single ''a'') demo_world) = Inr rs" by blast
  have b: "0 < batch_size demo_config" by (simp add: demo_config_def)
  from single_string_query [OF b demo_top_k demo_fields rs] rs show ?thesis
    by (auto simp: demo_config_def)
qed

text \<open>
  C10. A query whose text tags none of the rows the engine returned for its batch gets the
  empty list at its position; the position is there and nothing is raised for it, since
  grouping can only fail on a row that has no \<^verbatim>\<open>_query\<close> field. The empty query set
  yields the empty result.
\<close>

theorem unmatched_query_gets_empty_slot:
  assumes "0 < batch_size c"
  shows "(\<forall>rs i. fst (search eng cpu sched c (Many Q) w) = Inr rs \<longrightarrow> i < length Q \<longrightarrow>
            (\<forall>matchs. retrieve eng c (db (snd (search eng cpu sched c (Many Q) w)))
                         (batches_of c Q ! (i div nat (batch_size c))) = Inr matchs \<longrightarrow>
                       (\<forall>m \<in> set matchs. \<not> tagged (Q ! i) m)) \<longrightarrow>
            i < length rs \<and> rs ! i = []) \<and>
         (\<forall>matchs qs. (\<forall>m \<in> set matchs. map_of m ''_query'' \<noteq> None) \<longrightarrow>
            (\<exists>slots. collect matchs qs = Inr slots \<and> length slots = length qs \<and>
               (\<forall>i < length qs. (\<forall>m \<in> set matchs. \<not> tagged (qs ! i) m) \<longrightarrow> slots ! i = []))) \<and>
         (\<forall>w3. index_phase eng c [] w = (Inr (), w3) \<longrightarrow>
            search eng cpu sched c (Many []) w = (Inr [], w3))"
proof (intro conjI allI impI)
  fix rs i
  assume ok: "fst (search eng cpu sched c (Many Q) w) = Inr rs" and i: "i < length Q"
    and none: "\<forall>matchs. retrieve eng c (db (snd (search eng cpu sched c (Many Q) w)))
                         (batches_of c Q ! (i div nat (batch_size c))) = Inr matchs \<longrightarrow>
                       (\<forall>m \<in> set matchs. \<not> tagged (Q ! i) m)"
  have Q: "normalize_queries (Many Q) = Q" by (simp add: normalize_queries_def)
  from search_slots(1) [OF assms ok] i show "i < length rs" by (simp add: Q)
  from search_slots(2) [OF assms ok, of i] i obtain matchs where
    m: "retrieve eng c (db (snd (search eng cpu sched c (Many Q) w)))
          (batches_of c Q ! (i div nat (batch_size c))) = Inr matchs"
       "rs ! i = tagged_subsequence matchs (Q ! i)" unfolding Q by blast
  from none m(1) have "filter (tagged (Q ! i)) matchs = []" by (simp add: filter_empty_conv)
  with m(2) show "rs ! i = []" by (simp add: tagged_subsequence_def)
next
  fix matchs :: "row list" and qs :: "string list"
  assume "\<forall>m \<in> set matchs. map_of m ''_query'' \<noteq> None"
  then have "collect matchs qs = Inr (map (tagged_subsequence matchs) qs)"
    by (simp add: collect_eq)
  then show "\<exists>slots. collect matchs qs = Inr slots \<and> length slots = length qs \<and>
               (\<forall>i < length qs. (\<forall>m \<in> set matchs. \<not> tagged (qs ! i) m) \<longrightarrow> slots ! i = [])"
    by (simp add: tagged_subsequence_def filter_empty_conv)
next
  fix w3
  assume ip: "index_phase eng c [] w = (Inr (), w3)"
  have "dispatch_n_jobs c [] = 1" using assms by (simp add: dispatch_n_jobs_def)
  moreover have "batches_of c [] = []" by (simp add: batches_of_def)
  moreover have "Parallel eng c cpu 1 sched [] w3 = (Inr [], w3)"
    by (simp add: Parallel_def effective_n_jobs_def drain_def)
  ultimately show "search eng cpu sched c (Many []) w = (Inr [], w3)"
    using ip by (simp add: search_eq normalize_queries_def)
qed

theorem unmatched_query_gets_empty_slot_witness:
  "(\<exists>rs. fst (search demo_engine 4 [1, 0, 1, 1, 0] demo_config
             (Many [''a'', ''b'', ''a'', ''zzz'']) demo_world) = Inr rs \<and>
         3 < length rs \<and> rs ! 3 = []) \<and>
   fst (search demo_engine 4 [1, 0, 1, 1, 0] demo_config (Many []) demo_world) = Inr [] \<and>
   (\<exists>slots. collect demo_table [''zzz''] = Inr slots \<and> length slots = 1 \<and> slots ! 0 = [])"
proof -
  have b: "0 < batch_size demo_config" by (simp add: demo_config_def)
  note t = unmatched_query_gets_empty_slot [OF b, of demo_engine 4 "[1, 0, 1, 1, 0]" _ demo_world]
  from demo_succeeds obtain rs where
    rs: "fst (search demo_engine 4 [1, 0, 1, 1, 0] demo_config
               (Many [''a'', ''b'', ''a'', ''zzz'']) demo_world) = Inr rs" by blast
  have nz: "\<forall>m \<in> set demo_table. \<not> tagged ''zzz'' m" by (simp add: demo_table_def tagged_def)
  then have h: "\<forall>matchs. retrieve demo_engine demo_config d rows = Inr matchs \<longrightarrow>
      (\<forall>m \<in> set matchs. \<not> tagged ([''a'', ''b'', ''a'', ''zzz''] ! 3) m)" for d rows
    by (auto simp: demo_retrieve)
  from t [of "[''a'', ''b'', ''a'', ''zzz'']", THEN conjunct1, THEN spec, THEN spec, THEN mp,
      OF rs, THEN mp, THEN mp, OF _ h]
  have "3 < length rs \<and> rs ! 3 = []" by simp
  with rs have 1: "\<exists>rs. fst (search demo_engine 4 [1, 0, 1, 1, 0] demo_config
             (Many [''a'', ''b'', ''a'', ''zzz'']) demo_world) = Inr rs \<and>
         3 < length rs \<and> rs ! 3 = []" by blast
  from t [of "[]", THEN conjunct2, THEN conjunct2, rule_format, OF demo_index_phase]
  have 2: "fst (search demo_engine 4 [1, 0, 1, 1, 0] demo_config (Many []) demo_world) = Inr []"
    by simp
  have k: "\<forall>m \<in> set demo_table. map_of m ''_query'' \<noteq> None" by (simp add: demo_table_def)
  from t [of "[]", THEN conjunct2, THEN conjunct1, THEN spec, THEN spec, THEN mp, OF k,
      of "[''zzz'']"] nz
  have 3: "\<exists>slots. collect demo_table [''zzz''] = Inr slots \<and> length slots = 1 \<and> slots ! 0 = []"
    by auto
  from 1 2 3 show ?thesis by blast
qed

end
